theory Spec2Isabelle
  imports Complex_Main "HOL-Library.Product_Lexorder" "HOL-Library.Multiset"
begin

section \<open>The event store of a sequencer track\<close>

text \<open>
  The class \<open>Track\<close> keeps an array of event objects. The objects are shared with the
  caller and mutated in place (\<open>Object.assign(anObj, obj)\<close>, \<open>e.id = ...\<close>), so the
  model has an explicit object store: a reference is a natural number, the store maps
  each reference to the object's current fields, and the array \<open>events\<close> is a list of
  references. A property of an object is absent, or present and holding \<open>undefined\<close>, or
  present and holding a value: \<open>Object.assign\<close> and \<open>_.isEqual\<close> tell the first two apart,
  reading the property does not.

  A source name that starts with an underscore is written without it, or with the suffix
  \<open>_inner\<close> where the class has a public method of that name: \<open>_updateEvent\<close> is
  \<open>updateEvent_inner\<close>, \<open>_addEvent\<close> is \<open>addEvent_inner\<close>, \<open>_updateLast\<close> is \<open>updateLast\<close>.
  The properties of an event have the prefix \<open>ev_\<close>.

  Ticks, durations and ids are integers. The counter \<open>lastEventId\<close> is a double, and its
  increment is modelled with the rounding of a double (\<open>js_succ\<close>).

  An operation either returns or throws, and a throw leaves the track as the statements
  executed so far have made it; both outcomes carry the track.
\<close>

subsection \<open>Events\<close>

datatype jsval = NumV int | StrV string

datatype jsnum = Num rat | PosInf | NegInf | NaN

text \<open>
  A tick: a number, or \<open>NaN\<close> (what \<open>undefined + 0\<close> gives when an event is inserted with
  neither \<open>tick\<close> nor \<open>deltaTime\<close>).
\<close>

datatype tickval = Tick int | TickNaN

text \<open>
  A property of an object. \<open>reading\<close> is the value that \<open>e.prop\<close> gives, \<open>None\<close> for
  \<open>undefined\<close>; \<open>holding\<close> is the property that \<open>e.prop = v\<close> and \<open>{ prop: v }\<close> make.
\<close>

datatype 'a property = Absent | Undefined | Value 'a

fun reading :: "'a property \<Rightarrow> 'a option" where
  "reading Absent = None"
| "reading Undefined = None"
| "reading (Value v) = Some v"

fun holding :: "'a option \<Rightarrow> 'a property" where
  "holding None = Undefined"
| "holding (Some v) = Value v"

type_synonym ref = nat

record event =
  ev_id :: "int property"
  ev_tick :: "tickval property"
  ev_deltaTime :: "int property"
  ev_type :: "string property"
  ev_subtype :: "string property"
  ev_channel :: "int property"
  ev_controllerType :: "int property"
  ev_value :: "jsval property"
  ev_text :: "string property"
  ev_microsecondsPerBeat :: "jsnum property"
  ev_duration :: "int property"
  ev_velocity :: "int property"

text \<open>The values read from the properties: \<open>e.id\<close>, \<open>e.tick\<close>, and so on.\<close>

abbreviation id_of :: "event \<Rightarrow> int option" where
  "id_of e \<equiv> reading (ev_id e)"

abbreviation tick_of :: "event \<Rightarrow> tickval option" where
  "tick_of e \<equiv> reading (ev_tick e)"

abbreviation deltaTime_of :: "event \<Rightarrow> int option" where
  "deltaTime_of e \<equiv> reading (ev_deltaTime e)"

abbreviation type_of :: "event \<Rightarrow> string option" where
  "type_of e \<equiv> reading (ev_type e)"

abbreviation subtype_of :: "event \<Rightarrow> string option" where
  "subtype_of e \<equiv> reading (ev_subtype e)"

abbreviation duration_of :: "event \<Rightarrow> int option" where
  "duration_of e \<equiv> reading (ev_duration e)"

text \<open>The object literal \<open>{}\<close>; \<open>{ tick }\<close> is \<open>noFields\<lparr>ev_tick := holding tick\<rparr>\<close>.\<close>

definition noFields :: event where
  "noFields = \<lparr> ev_id = Absent, ev_tick = Absent, ev_deltaTime = Absent, ev_type = Absent,
      ev_subtype = Absent, ev_channel = Absent, ev_controllerType = Absent, ev_value = Absent,
      ev_text = Absent, ev_microsecondsPerBeat = Absent, ev_duration = Absent,
      ev_velocity = Absent \<rparr>"

text \<open>
  One property of \<open>Object.assign({}, a, b)\<close>: the property of \<open>b\<close> where \<open>b\<close> has the property,
  whatever it holds.
\<close>

definition over :: "'a property \<Rightarrow> 'a property \<Rightarrow> 'a property" where
  "over b a = (case b of Absent \<Rightarrow> a | _ \<Rightarrow> b)"

definition assign :: "event \<Rightarrow> event \<Rightarrow> event" where
  "assign a b = \<lparr> ev_id = over (ev_id b) (ev_id a),
      ev_tick = over (ev_tick b) (ev_tick a),
      ev_deltaTime = over (ev_deltaTime b) (ev_deltaTime a),
      ev_type = over (ev_type b) (ev_type a),
      ev_subtype = over (ev_subtype b) (ev_subtype a),
      ev_channel = over (ev_channel b) (ev_channel a),
      ev_controllerType = over (ev_controllerType b) (ev_controllerType a),
      ev_value = over (ev_value b) (ev_value a),
      ev_text = over (ev_text b) (ev_text a),
      ev_microsecondsPerBeat = over (ev_microsecondsPerBeat b) (ev_microsecondsPerBeat a),
      ev_duration = over (ev_duration b) (ev_duration a),
      ev_velocity = over (ev_velocity b) (ev_velocity a) \<rparr>"

subsection \<open>The track\<close>

record track =
  store :: "ref \<Rightarrow> event"
  events :: "ref list"
  lastEventId :: int
  channel :: "int option"

text \<open>
  The outcome of a method: it returns a value, or it throws; \<open>andThen\<close> is the sequence of
  two statements, the second of which is not reached when the first throws.
\<close>

datatype 'a outcome = Returned track 'a | Thrown track

fun andThen :: "'a outcome \<Rightarrow> (track \<Rightarrow> 'a \<Rightarrow> 'b outcome) \<Rightarrow> 'b outcome" where
  "andThen (Returned t v) f = f t v"
| "andThen (Thrown t) f = Thrown t"

fun stateOf :: "'a outcome \<Rightarrow> track" where
  "stateOf (Returned t v) = t"
| "stateOf (Thrown t) = t"

fun returns :: "'a outcome \<Rightarrow> bool" where
  "returns (Returned t v) = True"
| "returns (Thrown t) = False"

fun valueOf :: "'a outcome \<Rightarrow> 'a option" where
  "valueOf (Returned t v) = Some v"
| "valueOf (Thrown t) = None"

text \<open>\<open>lastValue(arr, prop)\<close>: the property of the last element, \<open>undefined\<close> for an empty array.\<close>

definition lastValue :: "track \<Rightarrow> ref list \<Rightarrow> (event \<Rightarrow> 'a property) \<Rightarrow> 'a option" where
  "lastValue t arr prop = (if arr = [] then None else reading (prop (store t (last arr))))"

text \<open>\<open>getEventById\<close>: \<open>_.find\<close> returns the first object of the array with \<open>e.id === id\<close>.\<close>

definition getEventById :: "track \<Rightarrow> int option \<Rightarrow> ref option" where
  "getEventById t i = List.find (\<lambda>r. reading (ev_id (store t r)) = i) (events t)"

text \<open>
  \<open>_updateEvent\<close> returns \<open>null\<close> for an unknown id and for a merge that changes nothing
  (\<open>_.isEqual\<close>, for which \<open>NaN\<close> equals \<open>NaN\<close> and an absent property differs from a
  property holding \<open>undefined\<close>), and the mutated object otherwise. The field record \<open>obj\<close>
  is read before anything is written, so it is passed by value.
\<close>

definition updateEvent_inner :: "track \<Rightarrow> int option \<Rightarrow> event \<Rightarrow> track \<times> ref option" where
  "updateEvent_inner t i obj =
     (case getEventById t i of
        None \<Rightarrow> (t, None)
      | Some anObj \<Rightarrow>
          (let newObj = assign (store t anObj) obj in
           if newObj = store t anObj then (t, None)
           else (t\<lparr>store := (store t)(anObj := assign (store t anObj) obj)\<rparr>, Some anObj)))"

text \<open>
  \<open>_.sortBy(this.events, "tick")\<close> is a stable sort; numbers come first, in ascending
  order, then \<open>undefined\<close>, then \<open>NaN\<close>. (The comparison of lodash puts \<open>NaN\<close> after every
  value, another \<open>NaN\<close> included, so the order it leaves among several \<open>NaN\<close> depends on the
  engine's sort; the model keeps them in their order.)
\<close>

definition tickKey :: "event \<Rightarrow> nat \<times> int" where
  "tickKey e = (case reading (ev_tick e) of Some (Tick k) \<Rightarrow> (0, k) | Some TickNaN \<Rightarrow> (2, 0)
     | None \<Rightarrow> (1, 0))"

definition sortByTick :: "track \<Rightarrow> track" where
  "sortByTick t = t\<lparr>events := sort_key (\<lambda>r. tickKey (store t r)) (events t)\<rparr>"

text \<open>\<open>e.tick + (e.duration || 0)\<close>, where it is a number.\<close>

definition endTick :: "event \<Rightarrow> int option" where
  "endTick e = (case reading (ev_tick e) of
       Some (Tick k) \<Rightarrow> Some (k + (case reading (ev_duration e) of None \<Rightarrow> 0 | Some d \<Rightarrow> d))
     | _ \<Rightarrow> None)"

text \<open>\<open>_.max\<close>: \<open>undefined\<close> for an array without numbers.\<close>

fun maxOf :: "int option list \<Rightarrow> int option" where
  "maxOf [] = None"
| "maxOf (None # xs) = maxOf xs"
| "maxOf (Some x # xs) = (case maxOf xs of None \<Rightarrow> Some x | Some y \<Rightarrow> Some (max x y))"

definition maxEndTick :: "track \<Rightarrow> int option" where
  "maxEndTick t = maxOf (map (\<lambda>r. endTick (store t r)) (events t))"

definition findTrackNameEvent :: "track \<Rightarrow> ref list" where
  "findTrackNameEvent t = filter (\<lambda>r. reading (ev_subtype (store t r)) = Some ''trackName'') (events t)"

definition findProgramChangeEvents :: "track \<Rightarrow> ref list" where
  "findProgramChangeEvents t =
     filter (\<lambda>r. reading (ev_subtype (store t r)) = Some ''programChange'') (events t)"

definition findEndOfTrackEvents :: "track \<Rightarrow> ref list" where
  "findEndOfTrackEvents t =
     filter (\<lambda>r. reading (ev_subtype (store t r)) = Some ''endOfTrack'') (events t)"

definition findVolumeEvents :: "track \<Rightarrow> ref list" where
  "findVolumeEvents t =
     filter (\<lambda>r. reading (ev_subtype (store t r)) = Some ''controller''
                \<and> reading (ev_controllerType (store t r)) = Some 7) (events t)"

definition findPanEvents :: "track \<Rightarrow> ref list" where
  "findPanEvents t =
     filter (\<lambda>r. reading (ev_subtype (store t r)) = Some ''controller''
                \<and> reading (ev_controllerType (store t r)) = Some 10) (events t)"

definition findSetTempoEvents :: "track \<Rightarrow> ref list" where
  "findSetTempoEvents t = filter (\<lambda>r. reading (ev_subtype (store t r)) = Some ''setTempo'') (events t)"

subsection \<open>The end of track\<close>

text \<open>
  The property \<open>endOfTrack\<close> is declared \<open>@computed\<close>, with a getter and a setter. MobX runs
  the setter of a computed value under a flag and raises an error when the property is
  assigned while its own setter is running. \<open>updateEndOfTrack\<close> assigns the maximum to the
  property; the setter is \<open>_updateLast(_findEndOfTrackEvents(), { tick })\<close>, which calls
  \<open>updateEvent\<close>, which calls \<open>updateEndOfTrack\<close> again when the event changed. That second
  assignment is made inside the running setter, so it throws: the event has been rewritten
  by then, and the \<open>sortByTick\<close> that follows in \<open>updateEvent\<close> is not reached.

  The methods on this path are therefore modelled twice. The definitions with the suffix
  \<open>_in_setter\<close> are the methods as they run while the setter of \<open>endOfTrack\<close> is running;
  the definitions without it are the methods called from outside.
\<close>

definition updateEndOfTrack_in_setter :: "track \<Rightarrow> unit outcome" where
  "updateEndOfTrack_in_setter t = Thrown t"

definition updateEvent_in_setter :: "track \<Rightarrow> int option \<Rightarrow> event \<Rightarrow> ref option outcome" where
  "updateEvent_in_setter t i obj =
     (case updateEvent_inner t i obj of
        (t', None) \<Rightarrow> Returned t' None
      | (t', Some result) \<Rightarrow>
          andThen (updateEndOfTrack_in_setter t')
            (\<lambda>t'' _. Returned (sortByTick t'') (Some result)))"

definition updateLast_in_setter :: "track \<Rightarrow> ref list \<Rightarrow> event \<Rightarrow> unit outcome" where
  "updateLast_in_setter t arr obj =
     (if arr \<noteq> []
      then andThen (updateEvent_in_setter t (reading (ev_id (store t (last arr)))) obj)
             (\<lambda>t' _. Returned t' ())
      else Returned t ())"

text \<open>
  The setter of \<open>endOfTrack\<close>, entered from outside; \<open>tick\<close> is the value assigned, \<open>None\<close>
  for \<open>undefined\<close>, which \<open>_.max\<close> returns when it finds no number.
\<close>

definition endOfTrack_set :: "track \<Rightarrow> tickval option \<Rightarrow> unit outcome" where
  "endOfTrack_set t tick =
     updateLast_in_setter t (findEndOfTrackEvents t) (noFields\<lparr>ev_tick := holding tick\<rparr>)"

definition updateEndOfTrack :: "track \<Rightarrow> unit outcome" where
  "updateEndOfTrack t = endOfTrack_set t (map_option Tick (maxEndTick t))"

text \<open>The getter, evaluated when it is read.\<close>

definition endOfTrack :: "track \<Rightarrow> tickval option" where
  "endOfTrack t = lastValue t (findEndOfTrackEvents t) ev_tick"

subsection \<open>Updates and removals\<close>

definition updateEvent :: "track \<Rightarrow> int option \<Rightarrow> event \<Rightarrow> ref option outcome" where
  "updateEvent t i obj =
     (case updateEvent_inner t i obj of
        (t', None) \<Rightarrow> Returned t' None
      | (t', Some result) \<Rightarrow>
          andThen (updateEndOfTrack t') (\<lambda>t'' _. Returned (sortByTick t'') (Some result)))"

definition updateLast :: "track \<Rightarrow> ref list \<Rightarrow> event \<Rightarrow> unit outcome" where
  "updateLast t arr obj =
     (if arr \<noteq> []
      then andThen (updateEvent t (reading (ev_id (store t (last arr)))) obj)
             (\<lambda>t' _. Returned t' ())
      else Returned t ())"

text \<open>
  \<open>updateEvents\<close> reads each record when its turn comes (\<open>event.id\<close>, then the record itself
  in \<open>Object.assign\<close>), so the records are references into the store as well.
\<close>

definition updateEvents :: "track \<Rightarrow> ref list \<Rightarrow> unit outcome" where
  "updateEvents t evs =
     (let t1 = fold (\<lambda>event t'. fst (updateEvent_inner t' (reading (ev_id (store t' event)))
                                         (store t' event)))
                 evs t
      in andThen (updateEndOfTrack t1) (\<lambda>t2 _. Returned (sortByTick t2) ()))"

text \<open>\<open>_.without(array, value)\<close>: every occurrence of the object goes; \<open>undefined\<close> removes nothing.\<close>

definition without :: "ref list \<Rightarrow> ref option \<Rightarrow> ref list" where
  "without xs obj = (case obj of None \<Rightarrow> xs | Some r \<Rightarrow> removeAll r xs)"

definition removeEvent :: "track \<Rightarrow> int option \<Rightarrow> unit outcome" where
  "removeEvent t i =
     (let obj = getEventById t i
      in updateEndOfTrack (t\<lparr>events := without (events t) obj\<rparr>))"

text \<open>\<open>_.difference(array, values)\<close>.\<close>

definition difference :: "ref list \<Rightarrow> ref option list \<Rightarrow> ref list" where
  "difference xs objs = filter (\<lambda>r. Some r \<notin> set objs) xs"

definition removeEvents :: "track \<Rightarrow> int option list \<Rightarrow> unit outcome" where
  "removeEvents t ids =
     (let objs = map (getEventById t) ids
      in updateEndOfTrack (t\<lparr>events := difference (events t) objs\<rparr>))"

subsection \<open>Insertion\<close>

text \<open>
  \<open>this.lastEventId++\<close>. The counter is a double: on the integers that a double holds,
  \<open>n + 1\<close> is exact from \<open>-2^53\<close> to \<open>2^53 - 1\<close>; beyond, the sum is rounded to the nearest
  double, ties to the even significand, which leaves \<open>2^53\<close> where it is.
\<close>

definition js_succ :: "int \<Rightarrow> int" where
  "js_succ n =
     (if - (2 ^ 53) \<le> n \<and> n < 2 ^ 53 then n + 1
      else if \<bar>n\<bar> < 2 ^ 54 \<and> odd (\<bar>n\<bar> div 2) then n + 2
      else n)"

text \<open>
  \<open>e.deltaTime + tick\<close>: a number when both operands are numbers, \<open>NaN\<close> when one is
  \<open>undefined\<close> or \<open>NaN\<close>.
\<close>

definition js_add :: "int option \<Rightarrow> tickval option \<Rightarrow> tickval" where
  "js_add a b = (case (a, b) of (Some x, Some (Tick y)) \<Rightarrow> Tick (x + y) | _ \<Rightarrow> TickNaN)"

text \<open>\<open>e.tick === undefined\<close>: the property is absent, or present and \<open>undefined\<close>.\<close>

definition tickIsUndefined :: "event \<Rightarrow> bool" where
  "tickIsUndefined e \<longleftrightarrow> reading (ev_tick e) = None"

text \<open>
  \<open>_addEvent\<close>. The lookup of the previous event is made with \<open>lastEventId\<close> after the
  increment, in the array that already holds \<open>e\<close>.
\<close>

definition addEvent_inner :: "track \<Rightarrow> ref \<Rightarrow> track \<times> ref" where
  "addEvent_inner t e =
     (let t1 = t\<lparr>store := (store t)(e := (store t e)\<lparr>ev_id := Value (lastEventId t)\<rparr>),
                 lastEventId := js_succ (lastEventId t),
                 events := events t @ [e]\<rparr>;
          t2 = (if tickIsUndefined (store t1 e)
                then (let lastEvent = getEventById t1 (Some (lastEventId t1));
                          tick = js_add (reading (ev_deltaTime (store t1 e)))
                                   (case lastEvent of Some l \<Rightarrow> reading (ev_tick (store t1 l))
                                    | None \<Rightarrow> Some (Tick 0))
                      in t1\<lparr>store := (store t1)(e := (store t1 e)\<lparr>ev_tick := Value tick\<rparr>)\<rparr>)
                else t1);
          t3 = (if reading (ev_type (store t2 e)) = Some ''channel''
                then t2\<lparr>store := (store t2)
                          (e := (store t2 e)\<lparr>ev_channel := holding (channel t2)\<rparr>)\<rparr>
                else t2)
      in (t3, e))"

definition didAddEvent :: "track \<Rightarrow> unit outcome" where
  "didAddEvent t = andThen (updateEndOfTrack t) (\<lambda>t' _. Returned (sortByTick t') ())"

definition addEvent :: "track \<Rightarrow> ref \<Rightarrow> ref outcome" where
  "addEvent t e =
     (case addEvent_inner t e of
        (t1, e') \<Rightarrow> andThen (didAddEvent t1) (\<lambda>t2 _. Returned t2 e'))"

text \<open>\<open>events.map(e => this._addEvent(e))\<close>.\<close>

fun addEach :: "track \<Rightarrow> ref list \<Rightarrow> track \<times> ref list" where
  "addEach t [] = (t, [])"
| "addEach t (e # es) =
     (case addEvent_inner t e of
        (t1, r) \<Rightarrow> (case addEach t1 es of (t2, rs) \<Rightarrow> (t2, r # rs)))"

definition addEvents :: "track \<Rightarrow> ref list \<Rightarrow> ref list outcome" where
  "addEvents t es =
     (case addEach t es of
        (t1, result) \<Rightarrow> andThen (didAddEvent t1) (\<lambda>t2 _. Returned t2 result))"

subsection \<open>Channel\<close>

definition changeChannel :: "track \<Rightarrow> int \<Rightarrow> track" where
  "changeChannel t c =
     fold (\<lambda>e t'. if reading (ev_type (store t' e)) = Some ''channel''
                   then t'\<lparr>store := (store t')(e := (store t' e)\<lparr>ev_channel := Value c\<rparr>)\<rparr>
                   else t')
       (events t) (t\<lparr>channel := Some c\<rparr>)"

definition isConductorTrack :: "track \<Rightarrow> bool" where
  "isConductorTrack t = (channel t = None)"

definition isRhythmTrack :: "track \<Rightarrow> bool" where
  "isRhythmTrack t = (channel t = Some 9)"

subsection \<open>createOrUpdate\<close>

text \<open>
  The \<open>forEach\<close> over the matching events; \<open>{ ...newEvent, id: e.id }\<close> is read when the
  iteration reaches \<open>e\<close>, and an update that throws ends the iteration.
\<close>

fun updateEach :: "track \<Rightarrow> ref \<Rightarrow> ref list \<Rightarrow> unit outcome" where
  "updateEach t newEvent [] = Returned t ()"
| "updateEach t newEvent (e # es) =
     andThen (updateEvent t (reading (ev_id (store t e)))
                ((store t newEvent)\<lparr>ev_id := holding (reading (ev_id (store t e)))\<rparr>))
       (\<lambda>t' _. updateEach t' newEvent es)"

text \<open>
  The filter of \<open>createOrUpdate\<close>. The ticks are compared with \<open>===\<close>, which is false when
  they are \<open>NaN\<close> and true when both are \<open>undefined\<close>.
\<close>

definition sameKey :: "event \<Rightarrow> event \<Rightarrow> bool" where
  "sameKey e newEvent \<longleftrightarrow>
     reading (ev_type e) = reading (ev_type newEvent)
     \<and> reading (ev_subtype e) = reading (ev_subtype newEvent)
     \<and> reading (ev_tick e) = reading (ev_tick newEvent) \<and> reading (ev_tick e) \<noteq> Some TickNaN"

definition createOrUpdate :: "track \<Rightarrow> ref \<Rightarrow> ref outcome" where
  "createOrUpdate t newEvent =
     (let evs = filter (\<lambda>e. sameKey (store t e) (store t newEvent)) (events t)
      in if evs \<noteq> []
         then andThen (updateEach t newEvent evs) (\<lambda>t' _. Returned t' (hd evs))
         else addEvent t newEvent)"

subsection \<open>Derived parameters\<close>

definition name :: "track \<Rightarrow> string option" where
  "name t = lastValue t (findTrackNameEvent t) ev_text"

text \<open>The setter of \<open>name\<close> passes \<open>{ value }\<close>: it writes the property \<open>value\<close>.\<close>

definition name_set :: "track \<Rightarrow> string \<Rightarrow> unit outcome" where
  "name_set t v = updateLast t (findTrackNameEvent t) (noFields\<lparr>ev_value := Value (StrV v)\<rparr>)"

definition volume :: "track \<Rightarrow> jsval option" where
  "volume t = lastValue t (findVolumeEvents t) ev_value"

definition volume_set :: "track \<Rightarrow> int \<Rightarrow> unit outcome" where
  "volume_set t v = updateLast t (findVolumeEvents t) (noFields\<lparr>ev_value := Value (NumV v)\<rparr>)"

definition pan :: "track \<Rightarrow> jsval option" where
  "pan t = lastValue t (findPanEvents t) ev_value"

definition pan_set :: "track \<Rightarrow> int \<Rightarrow> unit outcome" where
  "pan_set t v = updateLast t (findPanEvents t) (noFields\<lparr>ev_value := Value (NumV v)\<rparr>)"

definition programNumber :: "track \<Rightarrow> jsval option" where
  "programNumber t = lastValue t (findProgramChangeEvents t) ev_value"

definition programNumber_set :: "track \<Rightarrow> int \<Rightarrow> unit outcome" where
  "programNumber_set t v =
     updateLast t (findProgramChangeEvents t) (noFields\<lparr>ev_value := Value (NumV v)\<rparr>)"

text \<open>
  \<open>60000000 / x\<close>: the operand \<open>undefined\<close> converts to \<open>NaN\<close> and a zero divisor gives an
  infinity, so the quotient is always a number value. The quotient of two numbers is
  taken exactly (the rounding to a double is left out), and \<open>-0\<close> is not told from \<open>0\<close>.
\<close>

definition js_div :: "rat \<Rightarrow> jsnum option \<Rightarrow> jsnum" where
  "js_div a b =
     (case b of
        None \<Rightarrow> NaN
      | Some NaN \<Rightarrow> NaN
      | Some PosInf \<Rightarrow> Num 0
      | Some NegInf \<Rightarrow> Num 0
      | Some (Num y) \<Rightarrow>
          (if y = 0 then (if a = 0 then NaN else if 0 < a then PosInf else NegInf)
           else Num (a / y)))"

text \<open>The getter's result is a JavaScript value: \<open>None\<close> would be \<open>undefined\<close>.\<close>

definition tempo :: "track \<Rightarrow> jsnum option" where
  "tempo t = Some (js_div 60000000 (lastValue t (findSetTempoEvents t) ev_microsecondsPerBeat))"

definition tempo_set :: "track \<Rightarrow> jsnum \<Rightarrow> unit outcome" where
  "tempo_set t bpm =
     (let microsecondsPerBeat = js_div 60000000 (Some bpm)
      in updateLast t (findSetTempoEvents t)
           (noFields\<lparr>ev_microsecondsPerBeat := Value microsecondsPerBeat\<rparr>))"

subsection \<open>Sequences of public mutations\<close>

datatype op =
    AddEvent ref
  | AddEvents "ref list"
  | UpdateEvent int event
  | UpdateEvents "ref list"
  | RemoveEvent int
  | RemoveEvents "int list"
  | CreateOrUpdate ref
  | ChangeChannel int
  | SetName string
  | SetVolume int
  | SetPan int
  | SetProgramNumber int
  | SetTempo jsnum
  | SetEndOfTrack int

text \<open>The outcome of an operation, without the value it returns.\<close>

definition forget :: "'a outcome \<Rightarrow> unit outcome" where
  "forget res = andThen res (\<lambda>t _. Returned t ())"

fun apply_op :: "track \<Rightarrow> op \<Rightarrow> unit outcome" where
  "apply_op t (AddEvent e) = forget (addEvent t e)"
| "apply_op t (AddEvents es) = forget (addEvents t es)"
| "apply_op t (UpdateEvent i obj) = forget (updateEvent t (Some i) obj)"
| "apply_op t (UpdateEvents evs) = updateEvents t evs"
| "apply_op t (RemoveEvent i) = removeEvent t (Some i)"
| "apply_op t (RemoveEvents ids) = removeEvents t (map Some ids)"
| "apply_op t (CreateOrUpdate e) = forget (createOrUpdate t e)"
| "apply_op t (ChangeChannel c) = Returned (changeChannel t c) ()"
| "apply_op t (SetName v) = name_set t v"
| "apply_op t (SetVolume v) = volume_set t v"
| "apply_op t (SetPan v) = pan_set t v"
| "apply_op t (SetProgramNumber v) = programNumber_set t v"
| "apply_op t (SetTempo bpm) = tempo_set t bpm"
| "apply_op t (SetEndOfTrack tick) = endOfTrack_set t (Some (Tick tick))"

text \<open>
  A sequence of operations each of which returns: \<open>None\<close> when one of them throws.
\<close>

fun run :: "track \<Rightarrow> op list \<Rightarrow> track option" where
  "run t [] = Some t"
| "run t (x # xs) = (case apply_op t x of Thrown t' \<Rightarrow> None | Returned t' _ \<Rightarrow> run t' xs)"

text \<open>
  A sequence of operations whose caller catches the error of an operation that throws and
  goes on with the track as that operation left it.
\<close>

fun run_catching :: "track \<Rightarrow> op list \<Rightarrow> track" where
  "run_catching t [] = t"
| "run_catching t (x # xs) = run_catching (stateOf (apply_op t x)) xs"

text \<open>A new track: no events, whatever objects the caller holds.\<close>

definition newTrack :: "(ref \<Rightarrow> event) \<Rightarrow> track" where
  "newTrack s = \<lparr> store = s, events = [], lastEventId = 0, channel = None \<rparr>"

subsection \<open>The ids written by insertions\<close>

text \<open>
  The ids that \<open>_addEvent\<close> writes during an operation: the id of the object, read when
  \<open>_addEvent\<close> returns. They are written before the operation can throw. \<open>run_log\<close>
  collects them along a sequence of operations.
\<close>

fun allocEach :: "track \<Rightarrow> ref list \<Rightarrow> int option list" where
  "allocEach t [] = []"
| "allocEach t (e # es) =
     (case addEvent_inner t e of (t1, r) \<Rightarrow> reading (ev_id (store t1 r)) # allocEach t1 es)"

fun allocated :: "track \<Rightarrow> op \<Rightarrow> int option list" where
  "allocated t (AddEvent e) = allocEach t [e]"
| "allocated t (AddEvents es) = allocEach t es"
| "allocated t (CreateOrUpdate e) =
     (if filter (\<lambda>x. sameKey (store t x) (store t e)) (events t) = [] then allocEach t [e]
      else [])"
| "allocated t _ = []"

fun run_log :: "track \<Rightarrow> op list \<Rightarrow> track \<times> int option list" where
  "run_log t [] = (t, [])"
| "run_log t (x # xs) =
     (case run_log (stateOf (apply_op t x)) xs of
        (t', ids) \<Rightarrow> (t', allocated t x @ ids))"

text \<open>The ids \<open>n\<close>, \<open>n + 1\<close>, \<open>n + 2\<close>, and so on.\<close>

definition consecutive :: "int \<Rightarrow> int option list \<Rightarrow> bool" where
  "consecutive n ids \<longleftrightarrow> ids = map (\<lambda>k. Some (n + int k)) [0..<length ids]"

subsection \<open>Predicates on tracks\<close>

text \<open>The array is in the order of \<open>_.sortBy(events, "tick")\<close>.\<close>

definition sortedByTick :: "track \<Rightarrow> bool" where
  "sortedByTick t = sorted (map (\<lambda>r. tickKey (store t r)) (events t))"

text \<open>The ticks of the events, in the order of the array.\<close>

definition ticks :: "track \<Rightarrow> tickval option list" where
  "ticks t = map (\<lambda>r. reading (ev_tick (store t r))) (events t)"

text \<open>Every tick is a number; the ids of the events are pairwise distinct; no duration is negative.\<close>

definition isTick :: "tickval option \<Rightarrow> bool" where
  "isTick v = (case v of Some (Tick k) \<Rightarrow> True | _ \<Rightarrow> False)"

definition numericTicks :: "track \<Rightarrow> bool" where
  "numericTicks t \<longleftrightarrow> (\<forall>r\<in>set (events t). isTick (reading (ev_tick (store t r))))"

definition distinctIds :: "track \<Rightarrow> bool" where
  "distinctIds t \<longleftrightarrow>
     (\<forall>r\<in>set (events t). \<forall>r'\<in>set (events t).
        reading (ev_id (store t r)) = reading (ev_id (store t r')) \<longrightarrow> r = r')"

definition durationsNonNegative :: "track \<Rightarrow> bool" where
  "durationsNonNegative t \<longleftrightarrow>
     (\<forall>r\<in>set (events t).
        case reading (ev_duration (store t r)) of None \<Rightarrow> True | Some d \<Rightarrow> 0 \<le> d)"

definition wellFormed :: "track \<Rightarrow> bool" where
  "wellFormed t \<longleftrightarrow> numericTicks t \<and> distinctIds t \<and> durationsNonNegative t"


text \<open>Every stored id was allocated by the track: it lies under \<open>lastEventId\<close>.\<close>

definition idsBelowNext :: "track \<Rightarrow> bool" where
  "idsBelowNext t \<longleftrightarrow>
     (\<forall>r\<in>set (events t).
        case reading (ev_id (store t r)) of None \<Rightarrow> False | Some i \<Rightarrow> i < lastEventId t)"

text \<open>
  The counter can be incremented \<open>k\<close> times exactly: it stays among the integers on which
  \<open>n + 1\<close> is exact.
\<close>

definition exactIds :: "track \<Rightarrow> nat \<Rightarrow> bool" where
  "exactIds t k \<longleftrightarrow> - (2 ^ 53) \<le> lastEventId t \<and> lastEventId t + int k \<le> 2 ^ 53"

text \<open>The stored events with the triple \<open>(type, subtype, tick)\<close> of \<open>k\<close>.\<close>

definition matching :: "track \<Rightarrow> event \<Rightarrow> ref list" where
  "matching t k = filter (\<lambda>x. sameKey (store t x) k) (events t)"

text \<open>
  The operations that cannot overwrite the id of a stored event: every operation but an
  update whose fields have a property \<open>id\<close> that holds another value (\<open>undefined\<close> included),
  the insertion of an object already stored, and \<open>createOrUpdate\<close> of a stored object that
  matches no stored event (its tick is \<open>NaN\<close>), which inserts it again.
\<close>

fun keepsIds :: "track \<Rightarrow> op \<Rightarrow> bool" where
  "keepsIds t (UpdateEvent i obj) = (ev_id obj = Absent \<or> ev_id obj = Value i)"
| "keepsIds t (AddEvent e) = (e \<notin> set (events t))"
| "keepsIds t (AddEvents es) = (set es \<inter> set (events t) = {})"
| "keepsIds t (CreateOrUpdate e) = (matching t (store t e) \<noteq> [] \<or> e \<notin> set (events t))"
| "keepsIds t x = True"

text \<open>
  The value read from a property of an object, and the events of a triple, after
  operations that may throw.
\<close>

definition field_after :: "(event \<Rightarrow> 'a property) \<Rightarrow> ref \<Rightarrow> track option \<Rightarrow> 'a option option" where
  "field_after f r res = map_option (\<lambda>t. reading (f (store t r))) res"

definition matching_after :: "event \<Rightarrow> track option \<Rightarrow> ref list option" where
  "matching_after k res = map_option (\<lambda>t. matching t k) res"

subsection \<open>Auxiliary notions\<close>

text \<open>The object that \<open>_addEvent\<close> leaves in the store (see \<open>addEvent_inner_eq\<close>).\<close>

definition inserted :: "track \<Rightarrow> ref \<Rightarrow> event" where
  "inserted t e =
     (let o1 = (store t e)\<lparr>ev_id := Value (lastEventId t)\<rparr>;
          base = (case List.find
                         (\<lambda>r. (if r = e then Some (lastEventId t) else reading (ev_id (store t r)))
                                = Some (js_succ (lastEventId t)))
                         (events t @ [e])
                  of Some l \<Rightarrow> (if l = e then reading (ev_tick o1) else reading (ev_tick (store t l)))
                   | None \<Rightarrow> Some (Tick 0));
          o2 = (if tickIsUndefined o1
                then o1\<lparr>ev_tick := Value (js_add (reading (ev_deltaTime o1)) base)\<rparr> else o1)
      in if reading (ev_type o2) = Some ''channel'' then o2\<lparr>ev_channel := holding (channel t)\<rparr>
         else o2)"

text \<open>One iteration of the loop of \<open>changeChannel\<close>.\<close>

definition channelStep :: "int \<Rightarrow> ref \<Rightarrow> track \<Rightarrow> track" where
  "channelStep c e t' =
     (if reading (ev_type (store t' e)) = Some ''channel''
      then t'\<lparr>store := (store t')(e := (store t' e)\<lparr>ev_channel := Value c\<rparr>)\<rparr>
      else t')"

text \<open>What a rewrite of ticks leaves as it was: everything but ticks.\<close>

definition sameButTicks :: "track \<Rightarrow> track \<Rightarrow> bool" where
  "sameButTicks t t' \<longleftrightarrow>
     events t' = events t \<and> lastEventId t' = lastEventId t \<and> channel t' = channel t
     \<and> (\<forall>r. store t' r = (store t r)\<lparr>ev_tick := ev_tick (store t' r)\<rparr>)"

subsection \<open>Objects and tracks of the examples\<close>

definition emptyStore :: "ref \<Rightarrow> event" where
  "emptyStore = (\<lambda>_. noFields)"

definition noteOn :: "int \<Rightarrow> int \<Rightarrow> event" where
  "noteOn k d = noFields\<lparr>ev_tick := Value (Tick k), ev_type := Value ''channel'',
     ev_subtype := Value ''noteOn'', ev_duration := Value d\<rparr>"

definition trackName :: "string \<Rightarrow> event" where
  "trackName txt = noFields\<lparr>ev_tick := Value (Tick 0), ev_type := Value ''meta'',
     ev_subtype := Value ''trackName'', ev_text := Value txt\<rparr>"

definition endOfTrackEvent :: "int \<Rightarrow> event" where
  "endOfTrackEvent k = noFields\<lparr>ev_tick := Value (Tick k), ev_type := Value ''meta'',
     ev_subtype := Value ''endOfTrack''\<rparr>"

definition threeNotes :: "ref \<Rightarrow> event" where
  "threeNotes = (\<lambda>_. noFields)(0 := noteOn 50 1, 1 := noteOn 10 1, 2 := noteOn 30 1)"

definition namedStore :: "ref \<Rightarrow> event" where
  "namedStore = emptyStore(0 := trackName ''Piano'')"

text \<open>A track as three inserted notes and an inserted name leave it.\<close>

definition mixedStore :: "ref \<Rightarrow> event" where
  "mixedStore = emptyStore
     (0 := (noteOn 0 4)\<lparr>ev_id := Value 0, ev_channel := Value 0\<rparr>,
      1 := (noteOn 10 2)\<lparr>ev_id := Value 1, ev_channel := Value 0\<rparr>,
      2 := (noteOn 20 1)\<lparr>ev_id := Value 2, ev_channel := Value 0\<rparr>,
      3 := (trackName ''Piano'')\<lparr>ev_id := Value 3\<rparr>)"

definition mixedTrack :: track where
  "mixedTrack = \<lparr> store = mixedStore, events = [0, 3, 1, 2], lastEventId = 4, channel = Some 0 \<rparr>"

text \<open>An \<open>endOfTrack\<close> event at tick 5 and a note from tick 0 to tick 10.\<close>

definition crashStore :: "ref \<Rightarrow> event" where
  "crashStore = emptyStore(0 := endOfTrackEvent 5, 1 := noteOn 0 10)"

text \<open>An object with neither \<open>tick\<close> nor \<open>deltaTime\<close>.\<close>

definition nanStore :: "ref \<Rightarrow> event" where
  "nanStore = emptyStore(0 := noFields\<lparr>ev_type := Value ''channel'', ev_subtype := Value ''noteOn''\<rparr>)"

text \<open>Tracks whose counter is \<open>2^53\<close> and \<open>-2^54\<close>, as deserialised.\<close>

definition fullTrack :: track where
  "fullTrack = \<lparr> store = threeNotes, events = [], lastEventId = 2 ^ 53, channel = None \<rparr>"

definition lowTrack :: track where
  "lowTrack = \<lparr> store = threeNotes, events = [], lastEventId = - (2 ^ 54), channel = None \<rparr>"




text \<open>
  Two notes, and the track after both are inserted and \<open>updateEvent(1, { id: 0 })\<close> has
  given the second the id of the first.
\<close>

definition twinStore :: "ref \<Rightarrow> event" where
  "twinStore = emptyStore(0 := noteOn 0 1, 1 := noteOn 5 1)"

definition twinTrack :: track where
  "twinTrack = \<lparr> store = emptyStore
       (0 := (noteOn 0 1)\<lparr>ev_id := Value 0, ev_channel := Undefined\<rparr>,
        1 := (noteOn 5 1)\<lparr>ev_id := Value 0, ev_channel := Undefined\<rparr>),
     events = [0, 1], lastEventId = 2, channel = None \<rparr>"

text \<open>
  A note, and a note and an \<open>endOfTrack\<close> event that have a \<open>deltaTime\<close> and no tick; the
  track that holds the first note; and tracks whose counter is \<open>2^53\<close> and \<open>-2^54\<close>.
\<close>

definition deltaStore :: "ref \<Rightarrow> event" where
  "deltaStore = emptyStore
     (0 := noteOn 50 1,
      1 := noFields\<lparr>ev_deltaTime := Value 3, ev_type := Value ''channel'',
             ev_subtype := Value ''noteOn''\<rparr>,
      2 := noFields\<lparr>ev_deltaTime := Value 60, ev_type := Value ''meta'',
             ev_subtype := Value ''endOfTrack''\<rparr>)"

definition deltaTrack :: track where
  "deltaTrack = \<lparr> store = deltaStore(0 := (noteOn 50 1)\<lparr>ev_id := Value 0, ev_channel := Undefined\<rparr>),
     events = [0], lastEventId = 1, channel = None \<rparr>"

definition fullDeltaTrack :: track where
  "fullDeltaTrack = \<lparr> store = deltaStore, events = [], lastEventId = 2 ^ 53, channel = None \<rparr>"

definition lowDeltaTrack :: track where
  "lowDeltaTrack = \<lparr> store = deltaStore, events = [], lastEventId = - (2 ^ 54), channel = None \<rparr>"

text \<open>Two names.\<close>

definition twoNames :: "ref \<Rightarrow> event" where
  "twoNames = emptyStore(0 := trackName ''Piano'', 1 := trackName ''Grand Piano'')"

text \<open>
  A note with a duration and a velocity, and a candidate of the same triple with another
  velocity and no duration.
\<close>

definition mergeStore :: "ref \<Rightarrow> event" where
  "mergeStore = emptyStore
     (0 := (noteOn 0 4)\<lparr>ev_velocity := Value 100\<rparr>,
      1 := noFields\<lparr>ev_tick := Value (Tick 0), ev_type := Value ''channel'',
             ev_subtype := Value ''noteOn'', ev_velocity := Value 80\<rparr>)"

text \<open>Two candidates of the same type and subtype with a \<open>deltaTime\<close> and no tick.\<close>

definition twoDeltas :: "ref \<Rightarrow> event" where
  "twoDeltas = emptyStore
     (0 := noFields\<lparr>ev_deltaTime := Value 3, ev_type := Value ''channel'',
             ev_subtype := Value ''noteOn''\<rparr>,
      1 := noFields\<lparr>ev_deltaTime := Value 3, ev_type := Value ''channel'',
             ev_subtype := Value ''noteOn''\<rparr>)"

text \<open>A note and two names.\<close>

definition noteAndNames :: "ref \<Rightarrow> event" where
  "noteAndNames = emptyStore
     (0 := noteOn 0 1, 1 := trackName ''Piano'', 2 := trackName ''Grand Piano'')"

section \<open>Properties\<close>

subsection \<open>Properties and outcomes\<close>

lemma reading_holding [simp]: "reading (holding v) = v"
  by (cases v) simp_all

lemma reading_Some_iff: "reading p = Some v \<longleftrightarrow> p = Value v"
  by (cases p) simp_all

lemma over_Absent [simp]: "over Absent a = a"
  by (simp add: over_def)

lemma over_holding [simp]: "over (holding v) a = holding v"
  by (cases v) (simp_all add: over_def)

lemma over_Value [simp]: "over (Value v) a = Value v"
  by (simp add: over_def)

lemma over_Undefined [simp]: "over Undefined a = Undefined"
  by (simp add: over_def)

lemma andThen_Returned_iff:
  "andThen res f = Returned t v \<longleftrightarrow> (\<exists>t1 v1. res = Returned t1 v1 \<and> f t1 v1 = Returned t v)"
  by (cases res) simp_all

lemma stateOf_andThen:
  "stateOf (andThen res f) = (case res of Returned t v \<Rightarrow> stateOf (f t v) | Thrown t \<Rightarrow> t)"
  by (cases res) simp_all

lemma forget_Returned_iff: "forget res = Returned t u \<longleftrightarrow> (\<exists>v. res = Returned t v)"
  by (cases res) (simp_all add: forget_def)

lemma stateOf_forget: "stateOf (forget res) = stateOf res"
  by (cases res) (simp_all add: forget_def)

lemma returns_forget: "returns (forget res) = returns res"
  by (cases res) (simp_all add: forget_def)

lemma forget_simps:
  "forget (Returned t v) = Returned t ()" "forget (Thrown t) = Thrown t"
  by (simp_all add: forget_def)

subsection \<open>\<open>updateEndOfTrack\<close> returns without a change or throws\<close>

lemma updateEvent_inner_None:
  "updateEvent_inner t i obj = (t', None) \<Longrightarrow> t' = t"
  by (auto simp: updateEvent_inner_def Let_def split: option.splits if_splits)

lemma updateEvent_inner_Some:
  "updateEvent_inner t i obj = (t', Some a) \<Longrightarrow>
     getEventById t i = Some a \<and> assign (store t a) obj \<noteq> store t a
     \<and> t' = t\<lparr>store := (store t)(a := assign (store t a) obj)\<rparr>"
  by (auto simp: updateEvent_inner_def Let_def split: option.splits if_splits)

lemma getEventById_Some:
  "getEventById t i = Some a \<Longrightarrow> a \<in> set (events t) \<and> id_of (store t a) = i"
  unfolding getEventById_def by (auto simp: find_Some_iff)

lemma getEventById_None:
  "getEventById t i = None \<longleftrightarrow> (\<forall>r\<in>set (events t). id_of (store t r) \<noteq> i)"
  unfolding getEventById_def by (auto simp: find_None_iff)

lemma assign_tick:
  "assign a (noFields\<lparr>ev_tick := holding v\<rparr>) = a\<lparr>ev_tick := holding v\<rparr>"
  by (cases v) (simp_all add: assign_def noFields_def over_def)

text \<open>The value that \<open>updateEndOfTrack\<close> assigns.\<close>

lemma updateEndOfTrack_unfold:
  "updateEndOfTrack t =
     (if findEndOfTrackEvents t = [] then Returned t ()
      else (case updateEvent_inner t (id_of (store t (last (findEndOfTrackEvents t))))
                  (noFields\<lparr>ev_tick := holding (map_option Tick (maxEndTick t))\<rparr>) of
              (t', None) \<Rightarrow> Returned t' ()
            | (t', Some result) \<Rightarrow> Thrown t'))"
  by (simp add: updateEndOfTrack_def endOfTrack_set_def updateLast_in_setter_def
        updateEvent_in_setter_def updateEndOfTrack_in_setter_def split: prod.splits option.splits)

lemma updateEndOfTrack_nil: "findEndOfTrackEvents t = [] \<Longrightarrow> updateEndOfTrack t = Returned t ()"
  by (simp add: updateEndOfTrack_unfold)

lemma updateEndOfTrack_Returned:
  assumes "updateEndOfTrack t = Returned t' v"
  shows "t' = t"
  using assms updateEvent_inner_None
  by (auto simp: updateEndOfTrack_unfold split: if_splits prod.splits option.splits)

lemma updateEndOfTrack_Thrown:
  assumes "updateEndOfTrack t = Thrown t'"
  shows "\<exists>a v. a \<in> set (events t) \<and> t' = t\<lparr>store := (store t)(a := (store t a)\<lparr>ev_tick := v\<rparr>)\<rparr>"
proof -
  from assms obtain a where
    "updateEvent_inner t (id_of (store t (last (findEndOfTrackEvents t))))
        (noFields\<lparr>ev_tick := holding (map_option Tick (maxEndTick t))\<rparr>)
      = (t', Some a)"
    by (auto simp: updateEndOfTrack_unfold split: if_splits prod.splits option.splits)
  from updateEvent_inner_Some[OF this] getEventById_Some show ?thesis
    by (auto simp: assign_tick)
qed

lemma updateEndOfTrack_sameButTicks: "sameButTicks t (stateOf (updateEndOfTrack t))"
proof (cases "updateEndOfTrack t")
  case (Returned t' v)
  with updateEndOfTrack_Returned[OF Returned] show ?thesis by (simp add: sameButTicks_def)
next
  case (Thrown t')
  from updateEndOfTrack_Thrown[OF Thrown] Thrown show ?thesis
    by (auto simp: sameButTicks_def)
qed

lemmas outcome_defs = updateEndOfTrack_unfold updateEvent_def updateLast_def updateEvents_def
  removeEvent_def removeEvents_def didAddEvent_def addEvent_def addEvents_def
  createOrUpdate_def name_set_def volume_set_def pan_set_def programNumber_set_def
  tempo_set_def endOfTrack_set_def updateLast_in_setter_def updateEvent_in_setter_def
  updateEndOfTrack_in_setter_def forget_def

lemmas object_defs = noFields_def assign_def over_def tickIsUndefined_def
  js_add_def tickKey_def endTick_def sameKey_def isTick_def

lemmas find_defs = findTrackNameEvent_def findProgramChangeEvents_def findEndOfTrackEvents_def
  findVolumeEvents_def findPanEvents_def findSetTempoEvents_def getEventById_def
  lastValue_def maxEndTick_def

subsection \<open>\<open>changeChannel\<close> in closed form\<close>

lemma changeChannel_fold: "changeChannel t c = fold (channelStep c) (events t) (t\<lparr>channel := Some c\<rparr>)"
  unfolding changeChannel_def channelStep_def ..

lemma fold_channelStep_fields:
  "events (fold (channelStep c) es u) = events u \<and>
   lastEventId (fold (channelStep c) es u) = lastEventId u \<and>
   channel (fold (channelStep c) es u) = channel u"
  by (induction es arbitrary: u) (simp_all add: channelStep_def)

lemma fold_channelStep_store:
  "store (fold (channelStep c) es u) r =
      (if r \<in> set es \<and> type_of (store u r) = Some ''channel''
       then (store u r)\<lparr>ev_channel := Value c\<rparr> else store u r)"
proof (induction es arbitrary: u)
  case Nil
  show ?case by simp
next
  case (Cons e es)
  have "store (fold (channelStep c) (e # es) u) r
      = store (fold (channelStep c) es (channelStep c e u)) r"
    by simp
  also have "\<dots> = (if r \<in> set es \<and> type_of (store (channelStep c e u) r) = Some ''channel''
       then (store (channelStep c e u) r)\<lparr>ev_channel := Value c\<rparr>
       else store (channelStep c e u) r)"
    by (rule Cons.IH)
  also have "\<dots> = (if r \<in> set (e # es) \<and> type_of (store u r) = Some ''channel''
       then (store u r)\<lparr>ev_channel := Value c\<rparr> else store u r)"
    by (auto simp: channelStep_def)
  finally show ?case .
qed

lemma changeChannel_simps:
  "events (changeChannel t c) = events t"
  "lastEventId (changeChannel t c) = lastEventId t"
  "channel (changeChannel t c) = Some c"
  "store (changeChannel t c) r =
      (if r \<in> set (events t) \<and> type_of (store t r) = Some ''channel''
       then (store t r)\<lparr>ev_channel := Value c\<rparr> else store t r)"
  by (simp_all add: changeChannel_fold fold_channelStep_fields fold_channelStep_store)

lemma tickKey_changeChannel: "tickKey (store (changeChannel t c) r) = tickKey (store t r)"
  by (simp add: changeChannel_simps tickKey_def)

lemma changeChannel_sorted: "sortedByTick t \<Longrightarrow> sortedByTick (changeChannel t c)"
  by (simp add: sortedByTick_def changeChannel_simps(1) tickKey_changeChannel)

subsection \<open>Insertion in closed form\<close>

lemma addEvent_inner_eq:
  "addEvent_inner t e =
     (t\<lparr>store := (store t)(e := inserted t e), lastEventId := js_succ (lastEventId t),
        events := events t @ [e]\<rparr>, e)"
proof -
  let ?o1 = "(store t e)\<lparr>ev_id := Value (lastEventId t)\<rparr>"
  let ?t1 = "t\<lparr>store := (store t)(e := ?o1),
                 lastEventId := js_succ (lastEventId t), events := events t @ [e]\<rparr>"
  let ?Q = "\<lambda>r. (if r = e then Some (lastEventId t) else id_of (store t r))
                  = Some (js_succ (lastEventId t))"
  have Q: "(\<lambda>r. id_of (store ?t1 r) = Some (lastEventId ?t1)) = ?Q"
    by (auto simp: fun_eq_iff)
  have A: "getEventById ?t1 (Some (lastEventId ?t1)) = List.find ?Q (events t @ [e])"
    unfolding getEventById_def Q by simp
  have B: "(case List.find ?Q (events t @ [e]) of Some l \<Rightarrow> tick_of (store ?t1 l)
              | None \<Rightarrow> Some (Tick 0))
         = (case List.find ?Q (events t @ [e]) of
              Some l \<Rightarrow> (if l = e then tick_of ?o1 else tick_of (store t l))
            | None \<Rightarrow> Some (Tick 0))"
    by (cases "List.find ?Q (events t @ [e])") simp_all
  show ?thesis
    unfolding addEvent_inner_def Let_def A B inserted_def
    by simp
qed

text \<open>Where the increment is exact, the lookup cannot find the object being inserted.\<close>

lemma js_succ_exact: "- (2 ^ 53) \<le> n \<Longrightarrow> n < 2 ^ 53 \<Longrightarrow> js_succ n = n + 1"
  by (simp add: js_succ_def)

lemma js_succ_ge: "n \<le> js_succ n"
  by (simp add: js_succ_def)

lemma find_append_miss:
  "\<not> P e \<Longrightarrow> List.find P (xs @ [e]) = List.find P xs"
  by (induction xs) auto

lemma inserted_exact:
  assumes "js_succ (lastEventId t) \<noteq> lastEventId t"
  shows "inserted t e =
     (let o1 = (store t e)\<lparr>ev_id := Value (lastEventId t)\<rparr>;
          base = (case List.find (\<lambda>r. r \<noteq> e \<and> id_of (store t r) = Some (js_succ (lastEventId t)))
                         (events t)
                  of Some l \<Rightarrow> tick_of (store t l) | None \<Rightarrow> Some (Tick 0));
          o2 = (if tickIsUndefined o1
                then o1\<lparr>ev_tick := Value (js_add (deltaTime_of o1) base)\<rparr> else o1)
      in if type_of o2 = Some ''channel'' then o2\<lparr>ev_channel := holding (channel t)\<rparr>
         else o2)"
proof -
  let ?Q = "\<lambda>r. (if r = e then Some (lastEventId t) else id_of (store t r))
                  = Some (js_succ (lastEventId t))"
  let ?Q' = "\<lambda>r. r \<noteq> e \<and> id_of (store t r) = Some (js_succ (lastEventId t))"
  have Q: "?Q = ?Q'" using assms by (auto simp: fun_eq_iff)
  have "\<not> ?Q' e" by simp
  then have F: "List.find ?Q' (events t @ [e]) = List.find ?Q' (events t)"
    by (rule find_append_miss)
  have G: "(case List.find ?Q' (events t) of
              Some l \<Rightarrow> (if l = e then tick_of ((store t e)\<lparr>ev_id := Value (lastEventId t)\<rparr>)
                         else tick_of (store t l)) | None \<Rightarrow> Some (Tick 0))
         = (case List.find ?Q' (events t) of Some l \<Rightarrow> tick_of (store t l)
            | None \<Rightarrow> Some (Tick 0))"
  proof (cases "List.find ?Q' (events t)")
    case None
    then show ?thesis by simp
  next
    case (Some l)
    then have "l \<noteq> e" by (auto simp: find_Some_iff)
    with Some show ?thesis by simp
  qed
  show ?thesis
    unfolding inserted_def Q F Let_def G ..
qed

subsection \<open>What keeps the array sorted\<close>

lemma sortedByTick_sortByTick: "sortedByTick (sortByTick t)"
proof -
  have "map (\<lambda>r. tickKey (store (sortByTick t) r)) (events (sortByTick t))
      = map (\<lambda>r. tickKey (store t r)) (sort_key (\<lambda>r. tickKey (store t r)) (events t))"
    by (simp add: sortByTick_def)
  then show ?thesis by (simp add: sortedByTick_def)
qed

lemma updateEndOfTrack_sorted:
  "updateEndOfTrack t = Returned t' v \<Longrightarrow> sortedByTick t \<Longrightarrow> sortedByTick t'"
  by (auto dest: updateEndOfTrack_Returned)

lemma didAddEvent_sorted: "didAddEvent t = Returned t' v \<Longrightarrow> sortedByTick t'"
  by (auto simp: didAddEvent_def andThen_Returned_iff sortedByTick_sortByTick)

lemma updateEvent_Returned:
  assumes "updateEvent t i obj = Returned t' r"
  shows "(r = None \<and> t' = t \<and> updateEvent_inner t i obj = (t, None))
       \<or> (\<exists>a u. r = Some a \<and> updateEvent_inner t i obj = (u, Some a)
              \<and> updateEndOfTrack u = Returned u () \<and> t' = sortByTick u)"
proof (cases "updateEvent_inner t i obj")
  case (Pair u res)
  show ?thesis
  proof (cases res)
    case None
    with Pair assms updateEvent_inner_None[of t i obj u] show ?thesis
      by (simp add: updateEvent_def)
  next
    case (Some a)
    with Pair assms obtain u' v where u: "updateEndOfTrack u = Returned u' v"
      and t': "t' = sortByTick u'" and r: "r = Some a"
      by (auto simp: updateEvent_def andThen_Returned_iff)
    from updateEndOfTrack_Returned[OF u] have "u' = u" .
    with u t' r Pair Some show ?thesis by simp
  qed
qed

lemma updateEvent_sorted:
  "updateEvent t i obj = Returned t' r \<Longrightarrow> sortedByTick t \<Longrightarrow> sortedByTick t'"
  by (auto dest!: updateEvent_Returned simp: sortedByTick_sortByTick)

lemma updateLast_sorted:
  "updateLast t arr obj = Returned t' v \<Longrightarrow> sortedByTick t \<Longrightarrow> sortedByTick t'"
  by (auto simp: updateLast_def andThen_Returned_iff split: if_splits dest: updateEvent_sorted)

lemma updateEach_sorted:
  "updateEach t n es = Returned t' v \<Longrightarrow> sortedByTick t \<Longrightarrow> sortedByTick t'"
proof (induction es arbitrary: t)
  case Nil
  then show ?case by simp
next
  case (Cons e es)
  then show ?case
    by (auto simp: andThen_Returned_iff dest: updateEvent_sorted)
qed

lemma sortedByTick_filter:
  "sortedByTick t \<Longrightarrow> sortedByTick (t\<lparr>events := filter P (events t)\<rparr>)"
  by (simp add: sortedByTick_def sorted_filter)

lemma without_filter:
  "without xs obj = filter (\<lambda>x. obj \<noteq> Some x) xs"
  by (cases obj) (auto simp: without_def removeAll_filter_not_eq)

lemma removeEvent_sorted:
  "removeEvent t i = Returned t' v \<Longrightarrow> sortedByTick t \<Longrightarrow> sortedByTick t'"
  by (auto simp: removeEvent_def Let_def without_filter
           dest!: updateEndOfTrack_Returned intro: sortedByTick_filter)

lemma removeEvents_sorted:
  "removeEvents t ids = Returned t' v \<Longrightarrow> sortedByTick t \<Longrightarrow> sortedByTick t'"
  by (auto simp: removeEvents_def Let_def difference_def
           dest!: updateEndOfTrack_Returned intro: sortedByTick_filter)

lemma endOfTrack_set_Returned:
  assumes "endOfTrack_set t v = Returned t' u"
  shows "t' = t"
  using assms updateEvent_inner_None
  by (auto simp: endOfTrack_set_def updateLast_in_setter_def updateEvent_in_setter_def
        updateEndOfTrack_in_setter_def andThen_Returned_iff
        split: if_splits prod.splits option.splits)

lemma apply_op_sorted:
  assumes "apply_op t x = Returned t' v" and "sortedByTick t"
  shows "sortedByTick t'"
proof (cases x)
  case (AddEvent e)
  with assms show ?thesis
    by (auto simp: addEvent_def forget_Returned_iff andThen_Returned_iff
             split: prod.splits dest: didAddEvent_sorted)
next
  case (AddEvents es)
  with assms show ?thesis
    by (auto simp: addEvents_def forget_Returned_iff andThen_Returned_iff
             split: prod.splits dest: didAddEvent_sorted)
next
  case (UpdateEvent i obj)
  with assms show ?thesis by (auto simp: forget_Returned_iff dest: updateEvent_sorted)
next
  case (UpdateEvents evs)
  with assms show ?thesis
    by (auto simp: updateEvents_def Let_def andThen_Returned_iff sortedByTick_sortByTick)
next
  case (RemoveEvent i)
  with assms show ?thesis by (auto dest: removeEvent_sorted)
next
  case (RemoveEvents ids)
  with assms show ?thesis by (auto dest: removeEvents_sorted)
next
  case (CreateOrUpdate e)
  with assms show ?thesis
    by (auto simp: createOrUpdate_def Let_def addEvent_def forget_Returned_iff
                   andThen_Returned_iff
             split: if_splits prod.splits
             dest: updateEach_sorted didAddEvent_sorted)
next
  case (ChangeChannel c)
  with assms show ?thesis by (auto intro: changeChannel_sorted)
next
  case (SetName v)
  with assms show ?thesis by (auto simp: name_set_def dest: updateLast_sorted)
next
  case (SetVolume v)
  with assms show ?thesis by (auto simp: volume_set_def dest: updateLast_sorted)
next
  case (SetPan v)
  with assms show ?thesis by (auto simp: pan_set_def dest: updateLast_sorted)
next
  case (SetProgramNumber v)
  with assms show ?thesis by (auto simp: programNumber_set_def dest: updateLast_sorted)
next
  case (SetTempo bpm)
  with assms show ?thesis by (auto simp: tempo_set_def Let_def dest: updateLast_sorted)
next
  case (SetEndOfTrack k)
  with assms show ?thesis by (auto dest: endOfTrack_set_Returned)
qed

text \<open>
  While every operation returns, the array stays in the order of \<open>_.sortBy\<close>: an operation
  that returns either sorts at its end or keeps the order of the array.
\<close>

lemma run_sorted: "run t xs = Some t' \<Longrightarrow> sortedByTick t \<Longrightarrow> sortedByTick t'"
proof (induction xs arbitrary: t)
  case Nil
  then show ?case by simp
next
  case (Cons x xs)
  then show ?case by (auto split: outcome.splits dest: apply_op_sorted)
qed

lemma run_sorted_new:
  assumes "run (newTrack s) xs = Some t"
  shows "sortedByTick t"
proof -
  have "sortedByTick (newTrack s)" by (simp add: sortedByTick_def newTrack_def)
  with assms show ?thesis by (rule run_sorted)
qed

subsection \<open>The events are sorted\<close>

text \<open>
  C1. The claim is that after every public mutation the events are sorted by tick, in
  every state reachable from an empty track. The code sorts at the end of every
  operation that can break the order (\<open>run_sorted_new\<close>: the claim holds as long as every
  operation returns), but an operation that has to rewrite the tick of the \<open>endOfTrack\<close>
  event throws inside the setter of \<open>endOfTrack\<close>, before its \<open>sortByTick\<close>, and leaves the
  array as it was then. On a new track, \<open>addEvent\<close> of an \<open>endOfTrack\<close> event at tick 5
  returns; \<open>addEvent\<close> of a note from tick 0 to tick 10 throws and leaves the ticks
  \<open>[10, 0]\<close>; \<open>removeEvent(99)\<close> then returns, and so does \<open>changeChannel(3)\<close>, and the
  array is not sorted.
\<close>
theorem C1_unsorted_after_throw:
  "returns (apply_op (newTrack crashStore) (AddEvent 0))
   \<and> \<not> returns (apply_op (run_catching (newTrack crashStore) [AddEvent 0]) (AddEvent 1))
   \<and> ticks (run_catching (newTrack crashStore) [AddEvent 0, AddEvent 1])
       = [Some (Tick 10), Some (Tick 0)]
   \<and> returns (apply_op (run_catching (newTrack crashStore) [AddEvent 0, AddEvent 1])
               (RemoveEvent 99))
   \<and> ticks (run_catching (newTrack crashStore) [AddEvent 0, AddEvent 1, RemoveEvent 99])
       = [Some (Tick 10), Some (Tick 0)]
   \<and> \<not> sortedByTick (run_catching (newTrack crashStore) [AddEvent 0, AddEvent 1, RemoveEvent 99])
   \<and> returns (apply_op (run_catching (newTrack crashStore) [AddEvent 0, AddEvent 1])
               (ChangeChannel 3))
   \<and> ticks (run_catching (newTrack crashStore) [AddEvent 0, AddEvent 1, ChangeChannel 3])
       = [Some (Tick 10), Some (Tick 0)]
   \<and> \<not> sortedByTick (run_catching (newTrack crashStore) [AddEvent 0, AddEvent 1, ChangeChannel 3])"
  by (simp add: newTrack_def crashStore_def emptyStore_def endOfTrackEvent_def noteOn_def
        outcome_defs object_defs find_defs addEvent_inner_eq inserted_def Let_def
        updateEvent_inner_def sortByTick_def ticks_def sortedByTick_def without_def js_succ_def
        changeChannel_simps)

subsection \<open>The change of channel\<close>

text \<open>
  C7. After \<open>changeChannel(c)\<close> the channel of the track is \<open>c\<close>, every event of type
  \<open>channel\<close> has the channel \<open>c\<close>, and every event of another type is the object it was,
  with all its fields; the array is the same, and the track is the rhythm track exactly
  when \<open>c\<close> is 9.
\<close>
theorem C7_changeChannel:
  "channel (changeChannel t c) = Some c
   \<and> events (changeChannel t c) = events t
   \<and> (\<forall>r\<in>set (events (changeChannel t c)).
         type_of (store (changeChannel t c) r) = Some ''channel''
           \<longrightarrow> ev_channel (store (changeChannel t c) r) = Value c)
   \<and> (\<forall>r\<in>set (events t).
         type_of (store t r) \<noteq> Some ''channel'' \<longrightarrow> store (changeChannel t c) r = store t r)
   \<and> (isRhythmTrack (changeChannel t c) \<longleftrightarrow> c = 9)"
  by (simp add: changeChannel_simps isRhythmTrack_def)

theorem C7_witness:
  "2 \<in> set (events (changeChannel mixedTrack 9))
   \<and> type_of (store (changeChannel mixedTrack 9) 2) = Some ''channel''
   \<and> ev_channel (store (changeChannel mixedTrack 9) 2) = Value 9
   \<and> 3 \<in> set (events mixedTrack)
   \<and> type_of (store mixedTrack 3) \<noteq> Some ''channel''
   \<and> store (changeChannel mixedTrack 9) 3 = store mixedTrack 3
   \<and> isRhythmTrack (changeChannel mixedTrack 9)"
proof -
  note c7 = C7_changeChannel[of mixedTrack 9]
  have ev: "events (changeChannel mixedTrack 9) = [0, 3, 1, 2]"
    using c7 by (simp add: mixedTrack_def)
  have ty2: "type_of (store (changeChannel mixedTrack 9) 2) = Some ''channel''"
    by (simp add: changeChannel_simps mixedTrack_def mixedStore_def noteOn_def)
  have ty3: "type_of (store mixedTrack 3) \<noteq> Some ''channel''"
    by (simp add: mixedTrack_def mixedStore_def trackName_def)
  have in2: "2 \<in> set (events (changeChannel mixedTrack 9))" by (simp add: ev)
  have in3: "3 \<in> set (events mixedTrack)" by (simp add: mixedTrack_def)
  from c7 in2 ty2 have "ev_channel (store (changeChannel mixedTrack 9) 2) = Value 9" by blast
  moreover from c7 in3 ty3 have "store (changeChannel mixedTrack 9) 3 = store mixedTrack 3" by blast
  moreover from c7 have "isRhythmTrack (changeChannel mixedTrack 9)" by simp
  ultimately show ?thesis using in2 in3 ty2 ty3 by blast
qed

subsection \<open>Setters without a matching event\<close>

lemma updateLast_nil: "updateLast t [] obj = Returned t ()"
  by (simp add: updateLast_def)

lemma updateLast_in_setter_nil: "updateLast_in_setter t [] obj = Returned t ()"
  by (simp add: updateLast_in_setter_def)

text \<open>
  C8, as amended. Setting a derived parameter on a track that has no event matching the
  parameter returns without an error and leaves the whole state as it was; afterwards the
  getters of name, volume, pan, program number and end of track return \<open>undefined\<close>, and
  the getter of tempo returns \<open>NaN\<close> (\<open>60000000 / undefined\<close>), which is a number.
\<close>
theorem C8_set_without_matching_event:
  "(findTrackNameEvent t = [] \<longrightarrow> name_set t v = Returned t () \<and> name t = None)
   \<and> (findVolumeEvents t = [] \<longrightarrow> volume_set t n = Returned t () \<and> volume t = None)
   \<and> (findPanEvents t = [] \<longrightarrow> pan_set t n = Returned t () \<and> pan t = None)
   \<and> (findProgramChangeEvents t = []
        \<longrightarrow> programNumber_set t n = Returned t () \<and> programNumber t = None)
   \<and> (findSetTempoEvents t = [] \<longrightarrow> tempo_set t bpm = Returned t () \<and> tempo t = Some NaN)
   \<and> (findEndOfTrackEvents t = []
        \<longrightarrow> endOfTrack_set t (Some (Tick k)) = Returned t () \<and> endOfTrack t = None)"
  by (simp add: name_set_def volume_set_def pan_set_def programNumber_set_def tempo_set_def
        endOfTrack_set_def updateLast_nil updateLast_in_setter_nil name_def volume_def pan_def
        programNumber_def tempo_def endOfTrack_def lastValue_def js_div_def)

lemma mixedTrack_finds:
  "findVolumeEvents mixedTrack = []" "findPanEvents mixedTrack = []"
  "findProgramChangeEvents mixedTrack = []" "findSetTempoEvents mixedTrack = []"
  "findEndOfTrackEvents mixedTrack = []"
  by (simp_all add: findVolumeEvents_def findPanEvents_def findProgramChangeEvents_def
        findSetTempoEvents_def findEndOfTrackEvents_def mixedTrack_def mixedStore_def
        noteOn_def trackName_def)

theorem C8_witness:
  "findTrackNameEvent (newTrack emptyStore) = []
   \<and> name_set (newTrack emptyStore) ''Piano'' = Returned (newTrack emptyStore) ()
   \<and> findVolumeEvents mixedTrack = []
   \<and> volume_set mixedTrack 80 = Returned mixedTrack () \<and> volume mixedTrack = None
   \<and> findPanEvents mixedTrack = [] \<and> pan_set mixedTrack 64 = Returned mixedTrack ()
   \<and> findProgramChangeEvents mixedTrack = []
   \<and> programNumber_set mixedTrack 1 = Returned mixedTrack ()
   \<and> findSetTempoEvents mixedTrack = [] \<and> tempo_set mixedTrack (Num 120) = Returned mixedTrack ()
   \<and> tempo mixedTrack = Some NaN
   \<and> findEndOfTrackEvents mixedTrack = []
   \<and> endOfTrack_set mixedTrack (Some (Tick 5)) = Returned mixedTrack ()"
proof -
  have n: "findTrackNameEvent (newTrack emptyStore) = []"
    by (simp add: findTrackNameEvent_def newTrack_def)
  from C8_set_without_matching_event[of "newTrack emptyStore" "''Piano''"] n
  have a: "name_set (newTrack emptyStore) ''Piano'' = Returned (newTrack emptyStore) ()" by blast
  from C8_set_without_matching_event[of mixedTrack _ 80 "Num 120" 5] mixedTrack_finds
  have b: "volume_set mixedTrack 80 = Returned mixedTrack () \<and> volume mixedTrack = None"
    and c: "tempo_set mixedTrack (Num 120) = Returned mixedTrack () \<and> tempo mixedTrack = Some NaN"
    and d: "endOfTrack_set mixedTrack (Some (Tick 5)) = Returned mixedTrack ()"
    by blast+
  from C8_set_without_matching_event[of mixedTrack _ 64] mixedTrack_finds
  have e: "pan_set mixedTrack 64 = Returned mixedTrack ()" by blast
  from C8_set_without_matching_event[of mixedTrack _ 1] mixedTrack_finds
  have f: "programNumber_set mixedTrack 1 = Returned mixedTrack ()" by blast
  from n a b c d e f mixedTrack_finds show ?thesis by simp
qed

text \<open>
  The claim C8 as stated fails for tempo: on the track of the witness, which has no
  \<open>setTempo\<close> event, the setter changes nothing and the getter returns a number, \<open>NaN\<close>.
\<close>
theorem C8_counterexample:
  "findSetTempoEvents mixedTrack = []
   \<and> tempo_set mixedTrack (Num 120) = Returned mixedTrack ()
   \<and> tempo mixedTrack \<noteq> None"
  by (simp add: mixedTrack_finds tempo_set_def updateLast_nil tempo_def)

subsection \<open>The setter of the name\<close>

text \<open>
  C4. The claim is that the setter of \<open>name\<close> writes the property \<open>text\<close> of the last
  \<open>trackName\<close> event, so that the getter returns the value set. The code passes \<open>{ value }\<close>:
  on a track with the single event \<open>trackName\<close> "Piano", setting the name to "Grand Piano"
  leaves \<open>text\<close> and the getter at "Piano" and writes "Grand Piano" to the property \<open>value\<close>
  (no event is created).
\<close>
theorem C4_name_setter_writes_value:
  "map_option name (run (newTrack namedStore) [AddEvent 0, SetName ''Grand Piano''])
     = Some (Some ''Piano'')
   \<and> field_after ev_text 0 (run (newTrack namedStore) [AddEvent 0, SetName ''Grand Piano''])
     = Some (Some ''Piano'')
   \<and> field_after ev_value 0 (run (newTrack namedStore) [AddEvent 0, SetName ''Grand Piano''])
     = Some (Some (StrV ''Grand Piano''))
   \<and> map_option events (run (newTrack namedStore) [AddEvent 0, SetName ''Grand Piano''])
     = Some [0]"
  by (simp add: newTrack_def namedStore_def emptyStore_def trackName_def
        outcome_defs object_defs find_defs addEvent_inner_eq inserted_def Let_def
        updateEvent_inner_def sortByTick_def field_after_def name_def js_succ_def)

subsection \<open>What an update does to the ids\<close>

lemma stateOf_andThen_cases:
  assumes "\<And>u. res = Thrown u \<Longrightarrow> P u"
    and "\<And>u v. res = Returned u v \<Longrightarrow> P (stateOf (f u v))"
  shows "P (stateOf (andThen res f))"
  using assms by (cases res) simp_all

lemma sameButTicks_ids: "sameButTicks t t' \<Longrightarrow> id_of (store t' r) = id_of (store t r)"
proof -
  assume "sameButTicks t t'"
  then have "store t' r = (store t r)\<lparr>ev_tick := ev_tick (store t' r)\<rparr>"
    by (simp add: sameButTicks_def)
  then have "ev_id (store t' r) = ev_id ((store t r)\<lparr>ev_tick := ev_tick (store t' r)\<rparr>)"
    by simp
  then show ?thesis by simp
qed

lemma updateEndOfTrack_ids:
  "id_of (store (stateOf (updateEndOfTrack t)) r) = id_of (store t r)"
  using updateEndOfTrack_sameButTicks[of t] by (rule sameButTicks_ids)

lemma updateEndOfTrack_events:
  "events (stateOf (updateEndOfTrack t)) = events t"
  using updateEndOfTrack_sameButTicks[of t] by (simp add: sameButTicks_def)

lemma updateEndOfTrack_lastEventId:
  "lastEventId (stateOf (updateEndOfTrack t)) = lastEventId t"
  using updateEndOfTrack_sameButTicks[of t] by (simp add: sameButTicks_def)

lemma store_sortByTick: "store (sortByTick t) = store t"
  by (simp add: sortByTick_def)

lemma updateEvent_inner_ids:
  assumes "updateEvent_inner t i obj = (t', res)" and "ev_id obj = Absent \<or> id_of obj = i"
  shows "id_of (store t' r) = id_of (store t r)"
proof (cases res)
  case None
  with assms(1) show ?thesis by (auto dest: updateEvent_inner_None)
next
  case (Some a)
  with assms(1) have g: "getEventById t i = Some a"
    and t': "t' = t\<lparr>store := (store t)(a := assign (store t a) obj)\<rparr>"
    by (auto dest: updateEvent_inner_Some)
  from g have "id_of (store t a) = i" by (auto dest: getEventById_Some)
  with assms(2) have "id_of (assign (store t a) obj) = id_of (store t a)"
    by (auto simp: assign_def over_def split: property.splits)
  then show ?thesis by (simp add: t')
qed

lemma andThen_ids:
  assumes "\<And>u v. id_of (store (stateOf (f u v)) r) = id_of (store u r)"
  shows "id_of (store (stateOf (andThen res f)) r) = id_of (store (stateOf res) r)"
  using assms by (cases res) simp_all

lemma updateEvent_ids:
  assumes "ev_id obj = Absent \<or> id_of obj = i"
  shows "id_of (store (stateOf (updateEvent t i obj)) r) = id_of (store t r)"
proof (cases "updateEvent_inner t i obj")
  case (Pair u res)
  from updateEvent_inner_ids[OF Pair assms]
  have u: "id_of (store u r) = id_of (store t r)" .
  show ?thesis
  proof (cases res)
    case None
    with Pair u show ?thesis by (simp add: updateEvent_def)
  next
    case (Some a)
    with Pair u show ?thesis
      by (simp add: updateEvent_def andThen_ids store_sortByTick updateEndOfTrack_ids)
  qed
qed

lemma updateLast_ids:
  "ev_id obj = Absent \<Longrightarrow> id_of (store (stateOf (updateLast t arr obj)) r) = id_of (store t r)"
  using updateEvent_ids[of obj "id_of (store t (last arr))" t r]
  by (cases "updateEvent t (id_of (store t (last arr))) obj") (simp_all add: updateLast_def)

lemma endOfTrack_set_ids:
  "id_of (store (stateOf (endOfTrack_set t v)) r) = id_of (store t r)"
proof (cases "findEndOfTrackEvents t = []")
  case True
  then show ?thesis by (simp add: endOfTrack_set_def updateLast_in_setter_def)
next
  case False
  obtain u res where inner: "updateEvent_inner t (id_of (store t (last (findEndOfTrackEvents t))))
       (noFields\<lparr>ev_tick := holding v\<rparr>) = (u, res)"
    by (cases "updateEvent_inner t (id_of (store t (last (findEndOfTrackEvents t))))
       (noFields\<lparr>ev_tick := holding v\<rparr>)") auto
  have "ev_id (noFields\<lparr>ev_tick := holding v\<rparr>) = Absent" by (simp add: noFields_def)
  with updateEvent_inner_ids[OF inner] have "id_of (store u r) = id_of (store t r)" by simp
  with False inner show ?thesis
    by (cases res)
       (simp_all add: endOfTrack_set_def updateLast_in_setter_def updateEvent_in_setter_def
          updateEndOfTrack_in_setter_def)
qed

lemma updateEach_ids:
  "id_of (store (stateOf (updateEach t n es)) r) = id_of (store t r)"
proof (induction es arbitrary: t)
  case Nil
  show ?case by simp
next
  case (Cons e es)
  let ?res = "updateEvent t (id_of (store t e))
                ((store t n)\<lparr>ev_id := holding (id_of (store t e))\<rparr>)"
  have u: "id_of (store (stateOf ?res) r) = id_of (store t r)"
    by (rule updateEvent_ids) simp
  show ?case
  proof (cases ?res)
    case (Returned u v)
    with u Cons.IH[of u] show ?thesis by simp
  next
    case (Thrown u)
    with u show ?thesis by simp
  qed
qed

lemma updateEvents_fold_ids:
  "id_of (store (fold (\<lambda>event t'. fst (updateEvent_inner t' (id_of (store t' event)) (store t' event)))
                  evs t) r) = id_of (store t r)"
proof (induction evs arbitrary: t)
  case Nil
  show ?case by simp
next
  case (Cons e evs)
  have "updateEvent_inner t (id_of (store t e)) (store t e)
        = (fst (updateEvent_inner t (id_of (store t e)) (store t e)),
           snd (updateEvent_inner t (id_of (store t e)) (store t e)))"
    by simp
  from updateEvent_inner_ids[OF this]
  have "id_of (store (fst (updateEvent_inner t (id_of (store t e)) (store t e))) r)
        = id_of (store t r)"
    by simp
  with Cons.IH show ?case by simp
qed

lemma updateEvents_ids:
  "id_of (store (stateOf (updateEvents t evs)) r) = id_of (store t r)"
  by (simp add: updateEvents_def Let_def andThen_ids store_sortByTick updateEndOfTrack_ids
        updateEvents_fold_ids)

lemma didAddEvent_ids:
  "id_of (store (stateOf (didAddEvent t)) r) = id_of (store t r)"
  by (simp add: didAddEvent_def andThen_ids store_sortByTick updateEndOfTrack_ids)

lemma removeEvent_ids:
  "id_of (store (stateOf (removeEvent t i)) r) = id_of (store t r)"
  by (simp add: removeEvent_def Let_def updateEndOfTrack_ids)

lemma removeEvents_ids:
  "id_of (store (stateOf (removeEvents t ids)) r) = id_of (store t r)"
  by (simp add: removeEvents_def Let_def updateEndOfTrack_ids)

lemma stateOf_addEvent:
  "stateOf (addEvent t e) = stateOf (didAddEvent (fst (addEvent_inner t e)))"
  by (cases "addEvent_inner t e"; cases "didAddEvent (fst (addEvent_inner t e))")
     (simp_all add: addEvent_def)

lemma stateOf_addEvents:
  "stateOf (addEvents t es) = stateOf (didAddEvent (fst (addEach t es)))"
  by (cases "addEach t es"; cases "didAddEvent (fst (addEach t es))")
     (simp_all add: addEvents_def)

lemma addEach_frame:
  "fst (addEach t es) = u \<Longrightarrow> snd (addEach t es) = es \<and> events u = events t @ es
     \<and> channel u = channel t \<and> (\<forall>r. r \<notin> set es \<longrightarrow> store u r = store t r)"
proof (induction es arbitrary: t u)
  case Nil
  then show ?case by simp
next
  case (Cons e es)
  let ?t1 = "t\<lparr>store := (store t)(e := inserted t e), lastEventId := js_succ (lastEventId t),
        events := events t @ [e]\<rparr>"
  from Cons.prems have "fst (addEach ?t1 es) = u"
    by (simp add: addEvent_inner_eq split: prod.splits)
  from Cons.IH[OF this] show ?case
    by (auto simp: addEvent_inner_eq split: prod.splits)
qed

lemma addEvent_ids:
  "r \<noteq> e \<Longrightarrow> id_of (store (stateOf (addEvent t e)) r) = id_of (store t r)"
  by (simp add: stateOf_addEvent didAddEvent_ids addEvent_inner_eq)

lemma createOrUpdate_ids:
  assumes "matching t (store t e) \<noteq> [] \<or> e \<notin> set (events t)" and "r \<in> set (events t)"
  shows "id_of (store (stateOf (createOrUpdate t e)) r) = id_of (store t r)"
proof (cases "filter (\<lambda>x. sameKey (store t x) (store t e)) (events t) = []")
  case True
  with assms have "r \<noteq> e" by (auto simp: matching_def)
  with True show ?thesis by (simp add: createOrUpdate_def addEvent_ids)
next
  case False
  let ?evs = "filter (\<lambda>x. sameKey (store t x) (store t e)) (events t)"
  have "stateOf (createOrUpdate t e) = stateOf (updateEach t e ?evs)"
    using False by (cases "updateEach t e ?evs") (simp_all add: createOrUpdate_def Let_def)
  then show ?thesis by (simp add: updateEach_ids)
qed

text \<open>
  C9, as amended. The id of a stored event is changed by no public operation, whether
  the operation returns or throws, with three exceptions: \<open>updateEvent(id, fields)\<close> when
  \<open>fields\<close> has a property \<open>id\<close> that holds something else than \<open>id\<close> (\<open>Object.assign\<close> copies
  it like any property), the insertion of an object that is already in the array, and
  \<open>createOrUpdate\<close> of a stored object that matches no stored event, which inserts it again
  (a stored object whose tick is \<open>NaN\<close> does not match itself). In particular
  \<open>updateEvents\<close>, whose records are looked up by their own id, never changes an id.
\<close>
theorem C9_ids_kept:
  assumes "keepsIds t x" and "r \<in> set (events t)"
  shows "id_of (store (stateOf (apply_op t x)) r) = id_of (store t r)"
proof (cases x)
  case (AddEvent e)
  with assms have "r \<noteq> e" by auto
  with AddEvent show ?thesis by (simp add: stateOf_forget addEvent_ids)
next
  case (AddEvents es)
  with assms have "r \<notin> set es" by auto
  with addEach_frame[OF refl, of t es]
  have "store (fst (addEach t es)) r = store t r" by blast
  with AddEvents show ?thesis
    by (simp add: stateOf_forget stateOf_addEvents didAddEvent_ids)
next
  case (UpdateEvent i obj)
  with assms(1) have "ev_id obj = Absent \<or> id_of obj = Some i" by auto
  with UpdateEvent show ?thesis by (simp add: stateOf_forget updateEvent_ids)
next
  case (UpdateEvents evs)
  then show ?thesis by (simp add: updateEvents_ids)
next
  case (RemoveEvent i)
  then show ?thesis by (simp add: removeEvent_ids)
next
  case (RemoveEvents ids)
  then show ?thesis by (simp add: removeEvents_ids)
next
  case (CreateOrUpdate e)
  with assms show ?thesis by (simp add: stateOf_forget createOrUpdate_ids)
next
  case (ChangeChannel c)
  then show ?thesis by (simp add: changeChannel_simps)
next
  case (SetName v)
  then show ?thesis by (simp add: name_set_def noFields_def updateLast_ids)
next
  case (SetVolume v)
  then show ?thesis by (simp add: volume_set_def noFields_def updateLast_ids)
next
  case (SetPan v)
  then show ?thesis by (simp add: pan_set_def noFields_def updateLast_ids)
next
  case (SetProgramNumber v)
  then show ?thesis by (simp add: programNumber_set_def noFields_def updateLast_ids)
next
  case (SetTempo bpm)
  then show ?thesis by (simp add: tempo_set_def Let_def noFields_def updateLast_ids)
next
  case (SetEndOfTrack k)
  then show ?thesis by (simp add: endOfTrack_set_ids)
qed

theorem C9_witness:
  "keepsIds mixedTrack (UpdateEvent 1 (noFields\<lparr>ev_tick := Value (Tick 40)\<rparr>))
   \<and> 1 \<in> set (events mixedTrack)
   \<and> returns (apply_op mixedTrack (UpdateEvent 1 (noFields\<lparr>ev_tick := Value (Tick 40)\<rparr>)))
   \<and> tick_of (store (stateOf (apply_op mixedTrack
         (UpdateEvent 1 (noFields\<lparr>ev_tick := Value (Tick 40)\<rparr>)))) 1) = Some (Tick 40)
   \<and> id_of (store (stateOf (apply_op mixedTrack
         (UpdateEvent 1 (noFields\<lparr>ev_tick := Value (Tick 40)\<rparr>)))) 1) = id_of (store mixedTrack 1)"
proof -
  have k: "keepsIds mixedTrack (UpdateEvent 1 (noFields\<lparr>ev_tick := Value (Tick 40)\<rparr>))"
    by (simp add: noFields_def)
  have m: "1 \<in> set (events mixedTrack)" by (simp add: mixedTrack_def)
  have a: "returns (apply_op mixedTrack (UpdateEvent 1 (noFields\<lparr>ev_tick := Value (Tick 40)\<rparr>)))
     \<and> tick_of (store (stateOf (apply_op mixedTrack
         (UpdateEvent 1 (noFields\<lparr>ev_tick := Value (Tick 40)\<rparr>)))) 1) = Some (Tick 40)"
    by (simp add: mixedTrack_def mixedStore_def emptyStore_def noteOn_def trackName_def
          outcome_defs object_defs find_defs updateEvent_inner_def Let_def sortByTick_def)
  from C9_ids_kept[OF k m] a k m show ?thesis by blast
qed

text \<open>
  The claim C9 as stated fails, in the three ways that the amendment excepts. The note
  inserted with id 0 has the id 7 after \<open>updateEvent(0, { id: 7 })\<close> and no id after
  \<open>updateEvent(0, { id: undefined })\<close>; it has the id 1 after it is inserted a second time;
  and an object inserted without \<open>tick\<close> and \<open>deltaTime\<close>, whose tick is \<open>NaN\<close>, has the id 1
  after \<open>createOrUpdate\<close> of the same object.
\<close>
theorem C9_counterexample:
  "field_after ev_id 0 (run (newTrack threeNotes) [AddEvent 0]) = Some (Some 0)
   \<and> field_after ev_id 0
        (run (newTrack threeNotes) [AddEvent 0, UpdateEvent 0 (noFields\<lparr>ev_id := Value 7\<rparr>)])
      = Some (Some 7)
   \<and> field_after ev_id 0
        (run (newTrack threeNotes) [AddEvent 0, UpdateEvent 0 (noFields\<lparr>ev_id := Undefined\<rparr>)])
      = Some None
   \<and> field_after ev_id 0 (run (newTrack threeNotes) [AddEvent 0, AddEvent 0]) = Some (Some 1)
   \<and> field_after ev_id 0 (run (newTrack nanStore) [AddEvent 0]) = Some (Some 0)
   \<and> field_after ev_tick 0 (run (newTrack nanStore) [AddEvent 0]) = Some (Some TickNaN)
   \<and> field_after ev_id 0 (run (newTrack nanStore) [AddEvent 0, CreateOrUpdate 0]) = Some (Some 1)"
  by (simp add: newTrack_def threeNotes_def nanStore_def emptyStore_def noteOn_def field_after_def
        outcome_defs object_defs find_defs addEvent_inner_eq inserted_def Let_def
        updateEvent_inner_def sortByTick_def js_succ_def)

subsection \<open>The allocation of ids\<close>

lemma inserted_id: "id_of (inserted t e) = Some (lastEventId t)"
  by (simp add: inserted_def Let_def)

lemma andThen_lastEventId:
  assumes "\<And>u v. lastEventId (stateOf (f u v)) = lastEventId u"
  shows "lastEventId (stateOf (andThen res f)) = lastEventId (stateOf res)"
  using assms by (cases res) simp_all

lemma lastEventId_sortByTick: "lastEventId (sortByTick t) = lastEventId t"
  by (simp add: sortByTick_def)

lemma updateEvent_inner_lastEventId:
  "lastEventId (fst (updateEvent_inner t i obj)) = lastEventId t"
  by (simp add: updateEvent_inner_def Let_def split: option.splits)

lemma updateEvent_lastEventId:
  "lastEventId (stateOf (updateEvent t i obj)) = lastEventId t"
proof (cases "updateEvent_inner t i obj")
  case (Pair u res)
  with updateEvent_inner_lastEventId[of t i obj] have u: "lastEventId u = lastEventId t" by simp
  with Pair show ?thesis
    by (cases res)
       (simp_all add: updateEvent_def andThen_lastEventId lastEventId_sortByTick
          updateEndOfTrack_lastEventId)
qed

lemma updateLast_lastEventId:
  "lastEventId (stateOf (updateLast t arr obj)) = lastEventId t"
  by (simp add: updateLast_def andThen_lastEventId updateEvent_lastEventId)

lemma endOfTrack_set_lastEventId:
  "lastEventId (stateOf (endOfTrack_set t v)) = lastEventId t"
proof (cases "findEndOfTrackEvents t = []")
  case True
  then show ?thesis by (simp add: endOfTrack_set_def updateLast_in_setter_def)
next
  case False
  obtain u res where inner: "updateEvent_inner t (id_of (store t (last (findEndOfTrackEvents t))))
       (noFields\<lparr>ev_tick := holding v\<rparr>) = (u, res)"
    by (cases "updateEvent_inner t (id_of (store t (last (findEndOfTrackEvents t))))
       (noFields\<lparr>ev_tick := holding v\<rparr>)") auto
  with updateEvent_inner_lastEventId[of t "id_of (store t (last (findEndOfTrackEvents t)))"
      "noFields\<lparr>ev_tick := holding v\<rparr>"]
  have "lastEventId u = lastEventId t" by simp
  with False inner show ?thesis
    by (cases res)
       (simp_all add: endOfTrack_set_def updateLast_in_setter_def updateEvent_in_setter_def
          updateEndOfTrack_in_setter_def)
qed

lemma updateEach_lastEventId:
  "lastEventId (stateOf (updateEach t n es)) = lastEventId t"
proof (induction es arbitrary: t)
  case Nil
  show ?case by simp
next
  case (Cons e es)
  let ?res = "updateEvent t (id_of (store t e))
                ((store t n)\<lparr>ev_id := holding (id_of (store t e))\<rparr>)"
  have u: "lastEventId (stateOf ?res) = lastEventId t" by (rule updateEvent_lastEventId)
  show ?case
  proof (cases ?res)
    case (Returned u v)
    with u Cons.IH[of u] show ?thesis by simp
  next
    case (Thrown u)
    with u show ?thesis by simp
  qed
qed

lemma updateEvents_fold_lastEventId:
  "lastEventId (fold (\<lambda>event t'. fst (updateEvent_inner t' (id_of (store t' event)) (store t' event)))
                  evs t) = lastEventId t"
  by (induction evs arbitrary: t) (simp_all add: updateEvent_inner_lastEventId)

lemma didAddEvent_lastEventId:
  "lastEventId (stateOf (didAddEvent t)) = lastEventId t"
  by (simp add: didAddEvent_def andThen_lastEventId lastEventId_sortByTick
        updateEndOfTrack_lastEventId)

lemma consecutive_Nil [simp]: "consecutive n []"
  by (simp add: consecutive_def)

lemma consecutive_Cons: "consecutive (n + 1) ids \<Longrightarrow> consecutive n (Some n # ids)"
proof -
  assume "consecutive (n + 1) ids"
  then have ids: "ids = map (\<lambda>k. Some (n + 1 + int k)) [0..<length ids]"
    by (simp add: consecutive_def)
  have "map (\<lambda>k. Some (n + int k)) [0..<Suc (length ids)]
      = Some n # map (\<lambda>k. Some (n + int (Suc k))) [0..<length ids]"
    by (simp only: map_upt_Suc) simp
  also have "map (\<lambda>k. Some (n + int (Suc k))) [0..<length ids] = ids"
    by (subst (2) ids) (simp add: add.commute add.left_commute)
  finally show ?thesis by (simp add: consecutive_def)
qed

lemma consecutive_append:
  "consecutive n xs \<Longrightarrow> consecutive (n + int (length xs)) ys \<Longrightarrow> consecutive n (xs @ ys)"
proof (induction xs arbitrary: n)
  case Nil
  then show ?case by simp
next
  case (Cons x xs)
  from Cons.prems(1) have "x # xs = map (\<lambda>k. Some (n + int k)) [0..<Suc (length xs)]"
    unfolding consecutive_def by (simp del: upt_Suc)
  also have "\<dots> = Some n # map (\<lambda>k. Some (n + int (Suc k))) [0..<length xs]"
    by (simp only: map_upt_Suc) simp
  finally have x: "x = Some n"
    and "xs = map (\<lambda>k. Some (n + 1 + int k)) [0..<length xs]"
    by (simp_all add: add.commute add.left_commute)
  then have xs: "consecutive (n + 1) xs" by (simp add: consecutive_def)
  have "n + int (length (x # xs)) = n + 1 + int (length xs)" by simp
  with Cons.prems(2) have "consecutive (n + 1 + int (length xs)) ys"
    by (simp only:)
  from Cons.IH[OF xs this] show ?case
    unfolding x by (simp add: consecutive_Cons)
qed

lemma allocEach_length: "length (allocEach t es) = length es"
  by (induction es arbitrary: t) (simp_all add: addEvent_inner_eq)

lemma exactIds_step:
  assumes "exactIds t (Suc k)"
  shows "js_succ (lastEventId t) = lastEventId t + 1"
  using assms by (intro js_succ_exact) (simp_all add: exactIds_def)

lemma allocEach_consecutive:
  "exactIds t (length es) \<Longrightarrow>
     consecutive (lastEventId t) (allocEach t es)
     \<and> lastEventId (fst (addEach t es)) = lastEventId t + int (length es)"
proof (induction es arbitrary: t)
  case Nil
  show ?case by simp
next
  case (Cons e es)
  from Cons.prems have s: "js_succ (lastEventId t) = lastEventId t + 1"
    by (simp add: exactIds_step)
  let ?t1 = "t\<lparr>store := (store t)(e := inserted t e), lastEventId := lastEventId t + 1,
        events := events t @ [e]\<rparr>"
  from Cons.prems have "exactIds ?t1 (length es)" by (simp add: exactIds_def)
  from Cons.IH[OF this] show ?case
    by (auto simp: addEvent_inner_eq s inserted_id consecutive_Cons split: prod.splits)
qed

lemma exactIds_mono: "exactIds t k \<Longrightarrow> j \<le> k \<Longrightarrow> exactIds t j"
  by (simp add: exactIds_def)

lemma apply_op_allocated:
  assumes "exactIds t (length (allocated t x))"
  shows "lastEventId (stateOf (apply_op t x)) = lastEventId t + int (length (allocated t x))
         \<and> consecutive (lastEventId t) (allocated t x)"
proof (cases x)
  case (AddEvent e)
  with assms allocEach_consecutive[of t "[e]"] show ?thesis
    by (simp add: stateOf_forget stateOf_addEvent didAddEvent_lastEventId allocEach_length
          split: prod.splits)
next
  case (AddEvents es)
  with assms allocEach_consecutive[of t es] show ?thesis
    by (simp add: stateOf_forget stateOf_addEvents didAddEvent_lastEventId allocEach_length)
next
  case (UpdateEvent i obj)
  then show ?thesis by (simp add: stateOf_forget updateEvent_lastEventId)
next
  case (UpdateEvents evs)
  then show ?thesis
    by (simp add: updateEvents_def Let_def andThen_lastEventId lastEventId_sortByTick
          updateEndOfTrack_lastEventId updateEvents_fold_lastEventId)
next
  case (RemoveEvent i)
  then show ?thesis by (simp add: removeEvent_def Let_def updateEndOfTrack_lastEventId)
next
  case (RemoveEvents ids)
  then show ?thesis by (simp add: removeEvents_def Let_def updateEndOfTrack_lastEventId)
next
  case (CreateOrUpdate e)
  show ?thesis
  proof (cases "filter (\<lambda>x. sameKey (store t x) (store t e)) (events t) = []")
    case True
    with CreateOrUpdate assms allocEach_consecutive[of t "[e]"] show ?thesis
      by (simp add: stateOf_forget createOrUpdate_def stateOf_addEvent didAddEvent_lastEventId
            allocEach_length split: prod.splits)
  next
    case False
    let ?evs = "filter (\<lambda>x. sameKey (store t x) (store t e)) (events t)"
    have "stateOf (createOrUpdate t e) = stateOf (updateEach t e ?evs)"
      using False by (cases "updateEach t e ?evs") (simp_all add: createOrUpdate_def Let_def)
    with False CreateOrUpdate show ?thesis
      by (simp add: stateOf_forget updateEach_lastEventId)
  qed
next
  case (ChangeChannel c)
  then show ?thesis by (simp add: changeChannel_simps)
next
  case (SetName v)
  then show ?thesis by (simp add: name_set_def updateLast_lastEventId)
next
  case (SetVolume v)
  then show ?thesis by (simp add: volume_set_def updateLast_lastEventId)
next
  case (SetPan v)
  then show ?thesis by (simp add: pan_set_def updateLast_lastEventId)
next
  case (SetProgramNumber v)
  then show ?thesis by (simp add: programNumber_set_def updateLast_lastEventId)
next
  case (SetTempo bpm)
  then show ?thesis by (simp add: tempo_set_def Let_def updateLast_lastEventId)
next
  case (SetEndOfTrack k)
  then show ?thesis by (simp add: endOfTrack_set_lastEventId)
qed

lemma run_log_consecutive:
  "run_log t ops = (t', ids) \<Longrightarrow> exactIds t (length ids) \<Longrightarrow>
     lastEventId t' = lastEventId t + int (length ids) \<and> consecutive (lastEventId t) ids"
proof (induction ops arbitrary: t ids)
  case Nil
  then show ?case by simp
next
  case (Cons x xs)
  let ?u = "stateOf (apply_op t x)"
  from Cons.prems(1) obtain ids' where rest: "run_log ?u xs = (t', ids')"
    and ids: "ids = allocated t x @ ids'"
    by (auto split: prod.splits)
  from Cons.prems(2) ids have ex: "exactIds t (length (allocated t x))"
    by (auto elim: exactIds_mono)
  from apply_op_allocated[OF ex] have a: "lastEventId ?u = lastEventId t + int (length (allocated t x))"
    and b: "consecutive (lastEventId t) (allocated t x)" by simp_all
  from Cons.prems(2) ids a have "exactIds ?u (length ids')"
    by (simp add: exactIds_def)
  from Cons.IH[OF rest this] have c: "lastEventId t' = lastEventId ?u + int (length ids')"
    and d: "consecutive (lastEventId ?u) ids'" by simp_all
  from b d a have "consecutive (lastEventId t) (allocated t x @ ids')"
    by (simp add: consecutive_append)
  with a c ids show ?case by simp
qed

lemma consecutive_increasing:
  assumes "consecutive n ids"
  shows "\<exists>ns. ids = map Some ns \<and> sorted_wrt (<) ns \<and> distinct ns
           \<and> (\<forall>i\<in>set ns. n \<le> i \<and> i < n + int (length ids))"
proof -
  let ?ns = "map (\<lambda>k. n + int k) [0..<length ids]"
  from assms have "ids = map Some ?ns" by (simp add: consecutive_def comp_def)
  moreover have "sorted_wrt (<) ?ns"
    by (simp add: sorted_wrt_map sorted_wrt_iff_nth_less)
  moreover have "distinct ?ns" by (simp add: distinct_map inj_on_def)
  moreover have "\<forall>i\<in>set ?ns. n \<le> i \<and> i < n + int (length ids)" by auto
  ultimately show ?thesis by blast
qed

text \<open>
  C3, as amended. In every sequence of public mutations (insertions interleaved with
  removals and anything else, whether they return or throw) during which the counter
  \<open>lastEventId\<close> stays among the integers on which \<open>n + 1\<close> is exact, the ids written by
  \<open>_addEvent\<close> are, in the order of allocation, strictly increasing, hence pairwise
  distinct, and none is below the value \<open>lastEventId\<close> had before the sequence: no id is
  allocated twice, whatever was removed in between. They differ from the id of every
  event stored before the sequence when those ids lie below \<open>lastEventId\<close>.
\<close>
theorem C3_ids_strictly_increasing:
  assumes "run_log t ops = (t', ids)" and "exactIds t (length ids)"
  shows "\<exists>ns. ids = map Some ns \<and> sorted_wrt (<) ns \<and> distinct ns
           \<and> (\<forall>i\<in>set ns. lastEventId t \<le> i \<and> i < lastEventId t')
           \<and> lastEventId t' = lastEventId t + int (length ns)
           \<and> (idsBelowNext t \<longrightarrow> (\<forall>r\<in>set (events t). id_of (store t r) \<notin> set ids))"
proof -
  from run_log_consecutive[OF assms]
  have a: "lastEventId t' = lastEventId t + int (length ids)"
    and b: "consecutive (lastEventId t) ids" by simp_all
  from consecutive_increasing[OF b] obtain ns where ns:
    "ids = map Some ns" "sorted_wrt (<) ns" "distinct ns"
    "\<forall>i\<in>set ns. lastEventId t \<le> i \<and> i < lastEventId t + int (length ids)"
    by blast
  have "id_of (store t r) \<notin> set ids" if "idsBelowNext t" "r \<in> set (events t)" for r
  proof
    assume m: "id_of (store t r) \<in> set ids"
    from that obtain i where i: "id_of (store t r) = Some i" "i < lastEventId t"
      by (auto simp: idsBelowNext_def split: option.splits)
    with m ns(1) have "i \<in> set ns" by auto
    with ns(4) i(2) show False by auto
  qed
  with a ns show ?thesis by (intro exI[of _ ns]) simp
qed

theorem C3_witness:
  "run_log (newTrack threeNotes) [AddEvent 0, RemoveEvent 0, AddEvents [1, 2]]
      = (run_catching (newTrack threeNotes) [AddEvent 0, RemoveEvent 0, AddEvents [1, 2]],
         [Some 0, Some 1, Some 2])
   \<and> exactIds (newTrack threeNotes) 3
   \<and> sorted_wrt (<) [0, 1, 2 :: int]
   \<and> lastEventId (run_catching (newTrack threeNotes) [AddEvent 0, RemoveEvent 0, AddEvents [1, 2]]) = 3
   \<and> snd (run_log deltaTrack [AddEvent 1, RemoveEvent 0, AddEvent 2]) = [Some 1, Some 2]
   \<and> exactIds deltaTrack 2 \<and> idsBelowNext deltaTrack
   \<and> 0 \<in> set (events deltaTrack) \<and> id_of (store deltaTrack 0) = Some 0
   \<and> id_of (store deltaTrack 0) \<notin> set (snd (run_log deltaTrack [AddEvent 1, RemoveEvent 0, AddEvent 2]))"
proof -
  let ?ops = "[AddEvent 0, RemoveEvent 0, AddEvents [1, 2]]"
  have r: "run_log (newTrack threeNotes) ?ops
      = (run_catching (newTrack threeNotes) ?ops, [Some 0, Some 1, Some 2])"
    by (simp add: newTrack_def threeNotes_def noteOn_def
          outcome_defs object_defs find_defs addEvent_inner_eq inserted_def Let_def
          updateEvent_inner_def sortByTick_def without_def js_succ_def)
  have e: "exactIds (newTrack threeNotes) (length [Some 0, Some 1, Some (2::int)])"
    by (simp add: exactIds_def newTrack_def)
  from C3_ids_strictly_increasing[OF r e] obtain ns where
    ns: "[Some 0, Some 1, Some (2::int)] = map Some ns"
      "lastEventId (run_catching (newTrack threeNotes) ?ops)
         = lastEventId (newTrack threeNotes) + int (length ns)"
    by (elim exE conjE)
  from ns(1) have "length ns = 3" by (metis length_map length_Cons list.size(3) numeral_3_eq_3)
  with ns(2) have l: "lastEventId (run_catching (newTrack threeNotes) ?ops) = 3"
    by (simp add: newTrack_def)
  have e3: "exactIds (newTrack threeNotes) 3" by (simp add: exactIds_def newTrack_def)
  have s: "sorted_wrt (<) [0, 1, 2 :: int]" by simp
  let ?ops' = "[AddEvent 1, RemoveEvent 0, AddEvent 2]"
  have r': "snd (run_log deltaTrack ?ops') = [Some 1, Some 2]"
    by (simp add: deltaTrack_def deltaStore_def emptyStore_def noteOn_def
          outcome_defs object_defs find_defs addEvent_inner_eq inserted_def Let_def
          updateEvent_inner_def sortByTick_def without_def js_succ_def split: prod.splits)
  then have r'': "run_log deltaTrack ?ops' = (fst (run_log deltaTrack ?ops'), [Some 1, Some 2])"
    by (metis prod.collapse)
  have e': "exactIds deltaTrack (length [Some 1, Some (2::int)])"
    by (simp add: exactIds_def deltaTrack_def)
  have e2: "exactIds deltaTrack 2" by (simp add: exactIds_def deltaTrack_def)
  have b: "idsBelowNext deltaTrack" by (simp add: idsBelowNext_def deltaTrack_def)
  have m: "0 \<in> set (events deltaTrack)" by (simp add: deltaTrack_def)
  have i: "id_of (store deltaTrack 0) = Some 0" by (simp add: deltaTrack_def)
  from C3_ids_strictly_increasing[OF r'' e'] b m
  have "id_of (store deltaTrack 0) \<notin> set [Some 1, Some (2::int)]" by blast
  then have n: "id_of (store deltaTrack 0) \<notin> set (snd (run_log deltaTrack ?ops'))"
    unfolding r' .
  from r e3 s l r' e2 b m i n show ?thesis by blast
qed

text \<open>
  The claim C3 as stated fails. On a track whose counter has reached \<open>2^53\<close> the increment
  leaves the counter where it is, and two insertions write the same id; so it is on a
  track whose counter is \<open>-2^54\<close>. And an id written by \<open>updateEvent\<close> is written again by
  the next insertion: after \<open>updateEvent(0, { id: 1 })\<close> the event inserted first carries
  the id 1, which the second insertion then assigns.
\<close>
theorem C3_counterexample:
  "snd (run_log fullTrack [AddEvents [0, 1]]) = [Some (2 ^ 53), Some (2 ^ 53)]
   \<and> returns (apply_op fullTrack (AddEvents [0, 1]))
   \<and> snd (run_log lowTrack [AddEvents [0, 1]]) = [Some (- (2 ^ 54)), Some (- (2 ^ 54))]
   \<and> returns (apply_op lowTrack (AddEvents [0, 1]))
   \<and> snd (run_log (newTrack threeNotes)
            [AddEvent 0, UpdateEvent 0 (noFields\<lparr>ev_id := Value 1\<rparr>), AddEvent 1])
       = [Some 0, Some 1]
   \<and> field_after ev_id 0 (run (newTrack threeNotes)
            [AddEvent 0, UpdateEvent 0 (noFields\<lparr>ev_id := Value 1\<rparr>)]) = Some (Some 1)
   \<and> field_after ev_id 0 (run (newTrack threeNotes)
            [AddEvent 0, UpdateEvent 0 (noFields\<lparr>ev_id := Value 1\<rparr>), AddEvent 1]) = Some (Some 1)
   \<and> field_after ev_id 1 (run (newTrack threeNotes)
            [AddEvent 0, UpdateEvent 0 (noFields\<lparr>ev_id := Value 1\<rparr>), AddEvent 1]) = Some (Some 1)"
  by (simp add: fullTrack_def lowTrack_def newTrack_def threeNotes_def noteOn_def field_after_def
        outcome_defs object_defs find_defs addEvent_inner_eq inserted_def Let_def
        updateEvent_inner_def sortByTick_def js_succ_def)

subsection \<open>The end of track\<close>







lemma wellFormed_sortByTick [simp]: "wellFormed (sortByTick t) = wellFormed t"
  by (simp add: wellFormed_def numericTicks_def distinctIds_def durationsNonNegative_def
        sortByTick_def)















subsection \<open>Repeating an update\<close>

lemma over_over [simp]: "over b (over b a) = over b a"
  by (simp add: over_def split: property.splits)

lemma assign_idem: "assign (assign a b) b = assign a b"
  by (simp add: assign_def)

lemma getEventById_unique:
  assumes "a \<in> set (events t)" and "id_of (store t a) = i"
    and "\<And>r. r \<in> set (events t) \<Longrightarrow> id_of (store t r) = i \<Longrightarrow> r = a"
  shows "getEventById t i = Some a"
proof (cases "getEventById t i")
  case None
  with assms(1,2) show ?thesis by (auto simp: getEventById_None)
next
  case (Some b)
  then have "b \<in> set (events t)" "id_of (store t b) = i" by (auto dest: getEventById_Some)
  with assms(3) Some show ?thesis by simp
qed

text \<open>
  C5, as amended. On a track whose event ids are pairwise distinct, when
  \<open>updateEvent(id, fields)\<close> returns, applying it a second time returns \<open>null\<close> and leaves
  the state of the first application: \<open>_updateEvent\<close> finds nothing to merge, and neither
  \<open>updateEndOfTrack\<close> nor \<open>sortByTick\<close> runs.
\<close>
theorem C5_update_idempotent:
  assumes d: "distinctIds t"
    and u1: "updateEvent t i obj = Returned t1 res"
  shows "updateEvent t1 i obj = Returned t1 None \<and> updateEvent_inner t1 i obj = (t1, None)"
proof -
  have inner: "updateEvent_inner t1 i obj = (t1, None)"
  proof (cases res)
    case None
    with updateEvent_Returned[OF u1] show ?thesis by auto
  next
    case (Some a)
    let ?x = "assign (store t a) obj"
    let ?u = "t\<lparr>store := (store t)(a := ?x)\<rparr>"
    from updateEvent_Returned[OF u1] Some obtain u where
      "updateEvent_inner t i obj = (u, Some a)" and t1: "t1 = sortByTick u"
      by auto
    from updateEvent_inner_Some[OF this(1)] have g: "getEventById t i = Some a" and u: "u = ?u"
      by simp_all
    from g have a: "a \<in> set (events t)" "id_of (store t a) = i" by (auto dest: getEventById_Some)
    have st: "store t1 = (store t)(a := ?x)" by (simp add: t1 u sortByTick_def)
    have ev1: "set (events t1) = set (events t)" by (simp add: t1 u sortByTick_def)
    have others: "id_of (store t1 r) \<noteq> i" if "r \<in> set (events t)" "r \<noteq> a" for r
    proof -
      from that d a have "id_of (store t r) \<noteq> i" by (auto simp: distinctIds_def)
      with that(2) show ?thesis by (simp add: st)
    qed
    show ?thesis
    proof (cases "id_of ?x = i")
      case True
      have "getEventById t1 i = Some a"
      proof (rule getEventById_unique)
        show "a \<in> set (events t1)" using a(1) ev1 by simp
        show "id_of (store t1 a) = i" using True by (simp add: st)
        fix r assume "r \<in> set (events t1)" "id_of (store t1 r) = i"
        with others ev1 show "r = a" by auto
      qed
      then show ?thesis by (simp add: updateEvent_inner_def st assign_idem)
    next
      case False
      then have "id_of (store t1 a) \<noteq> i" by (simp add: st)
      with others ev1 have "getEventById t1 i = None"
        by (auto simp: getEventById_None)
      then show ?thesis by (simp add: updateEvent_inner_def)
    qed
  qed
  then show ?thesis by (simp add: updateEvent_def)
qed

theorem C5_witness:
  "distinctIds mixedTrack
   \<and> valueOf (updateEvent mixedTrack (Some 1) (noFields\<lparr>ev_tick := Value (Tick 40)\<rparr>))
       = Some (Some 1)
   \<and> updateEvent (stateOf (updateEvent mixedTrack (Some 1) (noFields\<lparr>ev_tick := Value (Tick 40)\<rparr>)))
        (Some 1) (noFields\<lparr>ev_tick := Value (Tick 40)\<rparr>)
       = Returned (stateOf (updateEvent mixedTrack (Some 1) (noFields\<lparr>ev_tick := Value (Tick 40)\<rparr>)))
           None"
proof -
  let ?f = "noFields\<lparr>ev_tick := Value (Tick 40)\<rparr>"
  have d: "distinctIds mixedTrack"
    by (simp add: distinctIds_def mixedTrack_def mixedStore_def)
  have v: "valueOf (updateEvent mixedTrack (Some 1) ?f) = Some (Some 1)"
    by (simp add: mixedTrack_def mixedStore_def emptyStore_def noteOn_def trackName_def
          outcome_defs object_defs find_defs updateEvent_inner_def Let_def)
  then have u: "updateEvent mixedTrack (Some 1) ?f
      = Returned (stateOf (updateEvent mixedTrack (Some 1) ?f)) (Some 1)"
    by (cases "updateEvent mixedTrack (Some 1) ?f") simp_all
  from C5_update_idempotent[OF d u] d v show ?thesis by blast
qed

lemma twinTrack_reached:
  "run (newTrack twinStore) [AddEvent 0, AddEvent 1, UpdateEvent 1 (noFields\<lparr>ev_id := Value 0\<rparr>)]
     = Some twinTrack"
  by (simp add: newTrack_def twinStore_def twinTrack_def emptyStore_def noteOn_def
        outcome_defs object_defs find_defs addEvent_inner_eq inserted_def Let_def
        updateEvent_inner_def sortByTick_def js_succ_def fun_eq_iff)

text \<open>
  The claim C5 as stated fails on a track where two events carry the same id, which
  \<open>updateEvent\<close> with an id in its fields produces (\<open>twinTrack_reached\<close>): the notes at ticks
  0 and 5 both have the id 0. The first \<open>updateEvent(0, { tick: 10 })\<close> moves the note at
  tick 0 behind the other; the second application finds the other note first and changes
  it as well, so it is not a no-op.
\<close>
theorem C5_counterexample:
  "ticks twinTrack = [Some (Tick 0), Some (Tick 5)]
   \<and> valueOf (updateEvent twinTrack (Some 0) (noFields\<lparr>ev_tick := Value (Tick 10)\<rparr>))
       = Some (Some 0)
   \<and> ticks (stateOf (updateEvent twinTrack (Some 0) (noFields\<lparr>ev_tick := Value (Tick 10)\<rparr>)))
       = [Some (Tick 5), Some (Tick 10)]
   \<and> valueOf (updateEvent
        (stateOf (updateEvent twinTrack (Some 0) (noFields\<lparr>ev_tick := Value (Tick 10)\<rparr>)))
        (Some 0) (noFields\<lparr>ev_tick := Value (Tick 10)\<rparr>))
       = Some (Some 1)
   \<and> ticks (stateOf (updateEvent
        (stateOf (updateEvent twinTrack (Some 0) (noFields\<lparr>ev_tick := Value (Tick 10)\<rparr>)))
        (Some 0) (noFields\<lparr>ev_tick := Value (Tick 10)\<rparr>)))
       = [Some (Tick 10), Some (Tick 10)]"
  by (simp add: twinTrack_def emptyStore_def noteOn_def ticks_def
        outcome_defs object_defs find_defs updateEvent_inner_def Let_def sortByTick_def)

subsection \<open>The tick of an event inserted with a delta time\<close>

lemma inserted_tick_defined:
  "\<not> tickIsUndefined (store t e) \<Longrightarrow> tick_of (inserted t e) = tick_of (store t e)"
  by (auto simp: inserted_def Let_def tickIsUndefined_def)

lemma inserted_subtype: "subtype_of (inserted t e) = subtype_of (store t e)"
  by (simp add: inserted_def Let_def)

lemma inserted_tick_delta:
  assumes "idsBelowNext t" and "js_succ (lastEventId t) = lastEventId t + 1"
    and "tickIsUndefined (store t e)" and "deltaTime_of (store t e) = Some d"
  shows "tick_of (inserted t e) = Some (Tick d)"
proof -
  have "List.find (\<lambda>r. r \<noteq> e \<and> id_of (store t r) = Some (js_succ (lastEventId t))) (events t)
        = None"
    using assms(1,2) by (auto simp: find_None_iff idsBelowNext_def split: option.splits)
  moreover from assms(2) have "js_succ (lastEventId t) \<noteq> lastEventId t" by simp
  ultimately show ?thesis
    using assms(3,4)
    by (simp add: inserted_exact Let_def js_add_def tickIsUndefined_def)
qed

lemma idsBelowNext_push:
  assumes "idsBelowNext t" and "lastEventId t < n'"
  shows "idsBelowNext (t\<lparr>store := (store t)(e := inserted t e), lastEventId := n',
        events := events t @ [e]\<rparr>)"
  using assms
  by (auto simp: idsBelowNext_def inserted_id split: option.splits)

lemma addEach_Cons_fst:
  "fst (addEach t (x # xs))
   = fst (addEach (t\<lparr>store := (store t)(x := inserted t x),
        lastEventId := js_succ (lastEventId t), events := events t @ [x]\<rparr>) xs)"
  by (cases "addEach (t\<lparr>store := (store t)(x := inserted t x),
        lastEventId := js_succ (lastEventId t), events := events t @ [x]\<rparr>) xs")
     (simp add: addEvent_inner_eq)

lemma addEach_tick_kept:
  "tick_of (store t e) = Some (Tick k) \<Longrightarrow> tick_of (store (fst (addEach t es)) e) = Some (Tick k)"
proof (induction es arbitrary: t)
  case Nil
  then show ?case by simp
next
  case (Cons x xs)
  let ?t1 = "t\<lparr>store := (store t)(x := inserted t x), lastEventId := js_succ (lastEventId t),
        events := events t @ [x]\<rparr>"
  from Cons.prems have "\<not> tickIsUndefined (store t e)"
    by (simp add: tickIsUndefined_def)
  with Cons.prems have "tick_of (store ?t1 e) = Some (Tick k)"
    by (cases "e = x") (simp_all add: inserted_tick_defined)
  from Cons.IH[OF this] show ?case
    by (simp only: addEach_Cons_fst)
qed

lemma addEach_tick_delta:
  assumes "idsBelowNext t" and "exactIds t (length es)" and "e \<in> set es"
    and "tickIsUndefined (store t e)" and "deltaTime_of (store t e) = Some d"
  shows "tick_of (store (fst (addEach t es)) e) = Some (Tick d)"
  using assms
proof (induction es arbitrary: t)
  case Nil
  then show ?case by simp
next
  case (Cons x xs)
  from Cons.prems(2) have s: "js_succ (lastEventId t) = lastEventId t + 1"
    by (simp add: exactIds_step)
  let ?t1 = "t\<lparr>store := (store t)(x := inserted t x), lastEventId := js_succ (lastEventId t),
        events := events t @ [x]\<rparr>"
  have step: "fst (addEach t (x # xs)) = fst (addEach ?t1 xs)"
    by (rule addEach_Cons_fst)
  show ?case
  proof (cases "x = e")
    case True
    with Cons.prems s have "tick_of (store ?t1 e) = Some (Tick d)"
      by (simp add: inserted_tick_delta)
    then show ?thesis unfolding step by (rule addEach_tick_kept)
  next
    case False
    with Cons.prems have "e \<in> set xs" "tickIsUndefined (store ?t1 e)"
      "deltaTime_of (store ?t1 e) = Some d"
      by simp_all
    moreover from Cons.prems(1) s have "idsBelowNext ?t1" by (simp add: idsBelowNext_push)
    moreover from Cons.prems(2) s have "exactIds ?t1 (length xs)" by (simp add: exactIds_def)
    ultimately show ?thesis
      unfolding step using Cons.IH by blast
  qed
qed

lemma addEach_lastEventId_ge: "lastEventId t \<le> lastEventId (fst (addEach t es))"
proof (induction es arbitrary: t)
  case Nil
  show ?case by simp
next
  case (Cons x xs)
  let ?t1 = "t\<lparr>store := (store t)(x := inserted t x), lastEventId := js_succ (lastEventId t),
        events := events t @ [x]\<rparr>"
  from Cons.IH[of ?t1] js_succ_ge[of "lastEventId t"] show ?case
    by (simp only: addEach_Cons_fst) simp
qed

lemma addEach_ids:
  "\<forall>r\<in>set es. \<exists>i. id_of (store (fst (addEach t es)) r) = Some i \<and> lastEventId t \<le> i"
proof (induction es arbitrary: t)
  case Nil
  then show ?case by simp
next
  case (Cons x xs)
  let ?t1 = "t\<lparr>store := (store t)(x := inserted t x), lastEventId := js_succ (lastEventId t),
        events := events t @ [x]\<rparr>"
  have step: "fst (addEach t (x # xs)) = fst (addEach ?t1 xs)"
    by (rule addEach_Cons_fst)
  from Cons.IH[of ?t1]
  have ih: "\<forall>r\<in>set xs. \<exists>i. id_of (store (fst (addEach ?t1 xs)) r) = Some i \<and> lastEventId ?t1 \<le> i" .
  have "\<exists>i. id_of (store (fst (addEach ?t1 xs)) r) = Some i \<and> lastEventId t \<le> i"
    if "r \<in> set (x # xs)" for r
  proof (cases "r \<in> set xs")
    case True
    with ih obtain i where "id_of (store (fst (addEach ?t1 xs)) r) = Some i" "lastEventId ?t1 \<le> i"
      by blast
    with js_succ_ge[of "lastEventId t"] show ?thesis by auto
  next
    case False
    with that have "r = x" by simp
    from addEach_frame[OF refl, of ?t1 xs] False have "store (fst (addEach ?t1 xs)) r = store ?t1 r"
      by blast
    with \<open>r = x\<close> show ?thesis by (simp add: inserted_id)
  qed
  then show ?case unfolding step by blast
qed

lemma addEach_subtype:
  "subtype_of (store (fst (addEach t es)) r) = subtype_of (store t r)"
proof (induction es arbitrary: t)
  case Nil
  show ?case by simp
next
  case (Cons x xs)
  let ?t1 = "t\<lparr>store := (store t)(x := inserted t x), lastEventId := js_succ (lastEventId t),
        events := events t @ [x]\<rparr>"
  have "fst (addEach t (x # xs)) = fst (addEach ?t1 xs)"
    by (rule addEach_Cons_fst)
  with Cons.IH[of ?t1] show ?case by (simp add: inserted_subtype)
qed

text \<open>The id of an inserted object is the id of no other object of the array.\<close>

lemma addEach_id_fresh:
  assumes "idsBelowNext t" and "exactIds t (length es)" and "e \<in> set es"
    and "z \<in> set (events t @ es)" and "z \<noteq> e"
  shows "id_of (store (fst (addEach t es)) z) \<noteq> id_of (store (fst (addEach t es)) e)"
  using assms
proof (induction es arbitrary: t)
  case Nil
  then show ?case by simp
next
  case (Cons x xs)
  from Cons.prems(2) have s: "js_succ (lastEventId t) = lastEventId t + 1"
    by (simp add: exactIds_step)
  let ?t1 = "t\<lparr>store := (store t)(x := inserted t x), lastEventId := js_succ (lastEventId t),
        events := events t @ [x]\<rparr>"
  let ?u = "fst (addEach ?t1 xs)"
  have step: "fst (addEach t (x # xs)) = ?u"
    by (rule addEach_Cons_fst)
  from Cons.prems(1) s have below: "idsBelowNext ?t1" by (simp add: idsBelowNext_push)
  from Cons.prems(2) s have exact: "exactIds ?t1 (length xs)" by (simp add: exactIds_def)
  from Cons.prems(4) have z: "z \<in> set (events ?t1 @ xs)" by auto
  show ?case
  proof (cases "e \<in> set xs")
    case True
    from Cons.IH[OF below exact True z Cons.prems(5)] show ?thesis unfolding step .
  next
    case False
    with Cons.prems(3) have ex: "e = x" by simp
    from addEach_frame[OF refl, of ?t1 xs] False have "store ?u e = store ?t1 e" by blast
    with ex have ide: "id_of (store ?u e) = Some (lastEventId t)" by (simp add: inserted_id)
    show ?thesis
    proof (cases "z \<in> set xs")
      case True
      with addEach_ids[of xs ?t1] obtain i where "id_of (store ?u z) = Some i" "lastEventId ?t1 \<le> i"
        by blast
      with s ide show ?thesis unfolding step by simp
    next
      case zx: False
      with Cons.prems(4,5) ex have zt: "z \<in> set (events t)" by auto
      from addEach_frame[OF refl, of ?t1 xs] zx have "store ?u z = store ?t1 z" by blast
      with Cons.prems(5) ex have "store ?u z = store t z" by simp
      with Cons.prems(1) zt obtain i where "id_of (store ?u z) = Some i" "i < lastEventId t"
        by (auto simp: idsBelowNext_def split: option.splits)
      with ide show ?thesis unfolding step by simp
    qed
  qed
qed

text \<open>The object that \<open>updateEndOfTrack\<close> has rewritten when it throws.\<close>

lemma updateEndOfTrack_Thrown_target:
  assumes "updateEndOfTrack t = Thrown t'"
  shows "\<exists>a z v. z \<in> set (events t) \<and> subtype_of (store t z) = Some ''endOfTrack''
           \<and> a \<in> set (events t) \<and> id_of (store t a) = id_of (store t z)
           \<and> t' = t\<lparr>store := (store t)(a := (store t a)\<lparr>ev_tick := v\<rparr>)\<rparr>"
proof -
  let ?z = "last (findEndOfTrackEvents t)"
  from assms have ne: "findEndOfTrackEvents t \<noteq> []"
    by (auto simp: updateEndOfTrack_unfold split: if_splits)
  then have "?z \<in> set (findEndOfTrackEvents t)" by simp
  then have z: "?z \<in> set (events t)" "subtype_of (store t ?z) = Some ''endOfTrack''"
    by (simp_all add: findEndOfTrackEvents_def)
  from assms ne obtain a where
    "updateEvent_inner t (id_of (store t ?z))
        (noFields\<lparr>ev_tick := holding (map_option Tick (maxEndTick t))\<rparr>)
      = (t', Some a)"
    by (auto simp: updateEndOfTrack_unfold split: if_splits prod.splits option.splits)
  from updateEvent_inner_Some[OF this] getEventById_Some[of t "id_of (store t ?z)" a] z
  show ?thesis
    by (auto simp: assign_tick)
qed

lemma didAddEvent_store:
  assumes "\<And>a z. z \<in> set (events u) \<Longrightarrow> subtype_of (store u z) = Some ''endOfTrack'' \<Longrightarrow>
              a \<in> set (events u) \<Longrightarrow> id_of (store u a) = id_of (store u z) \<Longrightarrow> a \<noteq> e"
  shows "store (stateOf (didAddEvent u)) e = store u e"
proof (cases "updateEndOfTrack u")
  case (Returned u' v)
  with updateEndOfTrack_Returned[OF Returned] show ?thesis
    by (simp add: didAddEvent_def sortByTick_def)
next
  case (Thrown u')
  from updateEndOfTrack_Thrown_target[OF Thrown] assms obtain a v where
    "a \<noteq> e" "u' = u\<lparr>store := (store u)(a := (store u a)\<lparr>ev_tick := v\<rparr>)\<rparr>"
    by blast
  with Thrown show ?thesis by (simp add: didAddEvent_def)
qed

lemma didAddEvent_Returned:
  "didAddEvent u = Returned t' v \<Longrightarrow> t' = sortByTick u"
  by (auto simp: didAddEvent_def andThen_Returned_iff dest: updateEndOfTrack_Returned)

lemma addEvents_Returned:
  "addEvents t es = Returned t' res \<Longrightarrow> t' = sortByTick (fst (addEach t es)) \<and> res = es"
  using addEach_frame[OF refl, of t es]
  by (auto simp: addEvents_def andThen_Returned_iff split: prod.splits dest: didAddEvent_Returned)

lemma addEvent_Returned:
  "addEvent t e = Returned t' res \<Longrightarrow> t' = sortByTick (fst (addEvent_inner t e)) \<and> res = e"
  by (auto simp: addEvent_def andThen_Returned_iff addEvent_inner_eq dest: didAddEvent_Returned)

lemma addEach_single: "fst (addEach t [e]) = fst (addEvent_inner t e)"
  by (simp add: addEvent_inner_eq)

lemma returns_addEvents:
  "returns (addEvents t es) = returns (didAddEvent (fst (addEach t es)))"
  by (cases "addEach t es"; cases "didAddEvent (fst (addEach t es))") (simp_all add: addEvents_def)

lemma returns_addEvent:
  "returns (addEvent t e) = returns (didAddEvent (fst (addEvent_inner t e)))"
  by (cases "addEvent_inner t e"; cases "didAddEvent (fst (addEvent_inner t e))")
     (simp_all add: addEvent_def)

lemma findEndOfTrackEvents_addEach:
  assumes "findEndOfTrackEvents t = []"
    and "\<forall>x\<in>set es. subtype_of (store t x) \<noteq> Some ''endOfTrack''"
  shows "findEndOfTrackEvents (fst (addEach t es)) = []"
proof -
  let ?u = "fst (addEach t es)"
  from addEach_frame[OF refl, of t es] have ev: "events ?u = events t @ es" by blast
  from assms show ?thesis
    by (auto simp: findEndOfTrackEvents_def filter_empty_conv ev addEach_subtype)
qed

lemma didAddEvent_returns_nil:
  "findEndOfTrackEvents u = [] \<Longrightarrow> returns (didAddEvent u)"
  by (simp add: didAddEvent_def updateEndOfTrack_nil)

text \<open>
  C10, as amended. When \<open>addEvent\<close> or \<open>addEvents\<close> inserts an event whose tick is
  \<open>undefined\<close>, on a track whose stored ids lie below \<open>lastEventId\<close> and whose counter can be
  incremented exactly for every event of the batch, the stored tick is exactly the
  \<open>deltaTime\<close> of the event, however many events the track holds and whatever their ticks:
  when the insertion returns, for every event; and, for an event that is not an
  \<open>endOfTrack\<close> event, also when the insertion throws. The insertion returns when neither
  the track nor the batch has an \<open>endOfTrack\<close> event.
\<close>
theorem C10_delta_tick:
  assumes "idsBelowNext t" and "exactIds t (length es)" and "e \<in> set es"
    and "tickIsUndefined (store t e)" and "deltaTime_of (store t e) = Some d"
  shows "(\<forall>t' res. addEvents t es = Returned t' res \<longrightarrow> tick_of (store t' e) = Some (Tick d))
     \<and> (subtype_of (store t e) \<noteq> Some ''endOfTrack''
          \<longrightarrow> tick_of (store (stateOf (addEvents t es)) e) = Some (Tick d))
     \<and> (es = [e] \<longrightarrow>
          (\<forall>t' res. addEvent t e = Returned t' res \<longrightarrow> tick_of (store t' e) = Some (Tick d))
          \<and> (subtype_of (store t e) \<noteq> Some ''endOfTrack''
               \<longrightarrow> tick_of (store (stateOf (addEvent t e)) e) = Some (Tick d)))
     \<and> (findEndOfTrackEvents t = [] \<and> (\<forall>x\<in>set es. subtype_of (store t x) \<noteq> Some ''endOfTrack'')
          \<longrightarrow> returns (addEvents t es) \<and> (es = [e] \<longrightarrow> returns (addEvent t e)))"
proof -
  let ?u = "fst (addEach t es)"
  have tick: "tick_of (store ?u e) = Some (Tick d)"
    using assms by (rule addEach_tick_delta)
  from addEach_frame[OF refl, of t es] have ev: "events ?u = events t @ es" by blast
  have ret: "tick_of (store t' e) = Some (Tick d)" if "addEvents t es = Returned t' res"
    for t' res
    using addEvents_Returned[OF that] tick by (simp add: sortByTick_def)
  have thr: "tick_of (store (stateOf (addEvents t es)) e) = Some (Tick d)"
    if ne: "subtype_of (store t e) \<noteq> Some ''endOfTrack''"
  proof -
    have "store (stateOf (didAddEvent ?u)) e = store ?u e"
    proof (rule didAddEvent_store)
      fix a z
      assume z: "z \<in> set (events ?u)" "subtype_of (store ?u z) = Some ''endOfTrack''"
        and a: "a \<in> set (events ?u)" "id_of (store ?u a) = id_of (store ?u z)"
      show "a \<noteq> e"
      proof
        assume "a = e"
        from z(2) ne have "z \<noteq> e" by (auto simp: addEach_subtype)
        with addEach_id_fresh[OF assms(1,2,3), of z] z(1) ev
        have "id_of (store ?u z) \<noteq> id_of (store ?u e)" by simp
        with a(2) \<open>a = e\<close> show False by simp
      qed
    qed
    with tick show ?thesis by (simp add: stateOf_addEvents)
  qed
  have single: "addEvent t e = Returned t' res \<Longrightarrow> addEvents t [e] = Returned t' [res]"
    for t' res
    by (auto simp: addEvent_def addEvents_def addEvent_inner_eq andThen_Returned_iff)
  have single_state: "stateOf (addEvent t e) = stateOf (addEvents t [e])"
    by (simp add: stateOf_addEvent stateOf_addEvents addEvent_inner_eq)
  have rets: "returns (addEvents t es) \<and> (es = [e] \<longrightarrow> returns (addEvent t e))"
    if "findEndOfTrackEvents t = []" "\<forall>x\<in>set es. subtype_of (store t x) \<noteq> Some ''endOfTrack''"
  proof -
    from findEndOfTrackEvents_addEach[OF that] have "returns (didAddEvent ?u)"
      by (rule didAddEvent_returns_nil)
    then show ?thesis
      by (auto simp: returns_addEvents returns_addEvent addEvent_inner_eq)
  qed
  from ret thr single single_state rets show ?thesis by (auto simp del: addEach.simps)
qed

theorem C10_witness:
  "idsBelowNext deltaTrack \<and> exactIds deltaTrack (length [1, 2 :: nat])
   \<and> tickIsUndefined (store deltaTrack 1) \<and> deltaTime_of (store deltaTrack 1) = Some 3
   \<and> tickIsUndefined (store deltaTrack 2) \<and> deltaTime_of (store deltaTrack 2) = Some 60
   \<and> returns (addEvents deltaTrack [1, 2])
   \<and> ticks (stateOf (addEvents deltaTrack [1, 2])) = [Some (Tick 3), Some (Tick 50), Some (Tick 60)]
   \<and> tick_of (store (stateOf (addEvents deltaTrack [1, 2])) 1) = Some (Tick 3)
   \<and> tick_of (store (stateOf (addEvents deltaTrack [1, 2])) 2) = Some (Tick 60)"
proof -
  have b: "idsBelowNext deltaTrack"
    by (simp add: idsBelowNext_def deltaTrack_def)
  have x: "exactIds deltaTrack (length [1, 2 :: nat])"
    by (simp add: exactIds_def deltaTrack_def)
  have u1: "tickIsUndefined (store deltaTrack 1)" and d1: "deltaTime_of (store deltaTrack 1) = Some 3"
    and u2: "tickIsUndefined (store deltaTrack 2)" and d2: "deltaTime_of (store deltaTrack 2) = Some 60"
    by (simp_all add: deltaTrack_def deltaStore_def emptyStore_def object_defs)
  have r: "returns (addEvents deltaTrack [1, 2])
     \<and> ticks (stateOf (addEvents deltaTrack [1, 2])) = [Some (Tick 3), Some (Tick 50), Some (Tick 60)]"
    by (simp add: deltaTrack_def deltaStore_def emptyStore_def noteOn_def ticks_def
          outcome_defs object_defs find_defs addEvent_inner_eq inserted_def Let_def
          updateEvent_inner_def sortByTick_def js_succ_def)
  then obtain t' res where a: "addEvents deltaTrack [1, 2] = Returned t' res"
    by (cases "addEvents deltaTrack [1, 2]") auto
  have m1: "1 \<in> set [1, 2 :: nat]" and m2: "2 \<in> set [1, 2 :: nat]" by simp_all
  from C10_delta_tick[OF b x m1 u1 d1] a have "tick_of (store t' 1) = Some (Tick 3)" by blast
  moreover from C10_delta_tick[OF b x m2 u2 d2] a have "tick_of (store t' 2) = Some (Tick 60)"
    by blast
  ultimately show ?thesis using a b x u1 d1 u2 d2 r by simp
qed

text \<open>
  The claim C10 as stated fails. After \<open>updateEvent(0, { id: 2 })\<close> the note at tick 50
  carries the id that the lookup uses when the next event is inserted, and the event
  with the \<open>deltaTime\<close> 3 is stored with the tick 53. And on a track whose counter has
  reached \<open>2^53\<close> the increment leaves the counter where it is, the lookup finds the
  inserted object itself, whose tick is \<open>undefined\<close>, and the stored tick is \<open>NaN\<close>; so it is
  on a track whose counter is \<open>-2^54\<close>.
\<close>
theorem C10_counterexample:
  "field_after ev_tick 1
      (run (newTrack deltaStore)
         [AddEvent 0, UpdateEvent 0 (noFields\<lparr>ev_id := Value 2\<rparr>), AddEvent 1])
     = Some (Some (Tick 53))
   \<and> returns (addEvent fullDeltaTrack 1)
   \<and> tick_of (store (stateOf (addEvent fullDeltaTrack 1)) 1) = Some TickNaN
   \<and> returns (addEvent lowDeltaTrack 1)
   \<and> tick_of (store (stateOf (addEvent lowDeltaTrack 1)) 1) = Some TickNaN"
  by (simp add: newTrack_def fullDeltaTrack_def lowDeltaTrack_def deltaStore_def emptyStore_def noteOn_def
        field_after_def outcome_defs object_defs find_defs addEvent_inner_eq inserted_def
        Let_def updateEvent_inner_def sortByTick_def js_succ_def)

subsection \<open>Two calls of \<open>createOrUpdate\<close>\<close>

lemma mset_single_list: "mset xs = mset [a] \<Longrightarrow> xs = [a]"
  by (cases xs) (auto simp: add_eq_conv_ex)

lemma matching_single:
  assumes "mset (events t') = mset (events t @ [n1])" and "n1 \<notin> set (events t)"
    and "\<forall>x\<in>set (events t). \<not> sameKey (store t' x) K" and "sameKey (store t' n1) K"
  shows "matching t' K = [n1]"
proof -
  have "mset (filter (\<lambda>x. sameKey (store t' x) K) (events t'))
      = filter_mset (\<lambda>x. sameKey (store t' x) K) (mset (events t @ [n1]))"
    by (simp only: mset_filter assms(1))
  also have "\<dots> = mset (filter (\<lambda>x. sameKey (store t' x) K) (events t @ [n1]))"
    by (simp only: mset_filter)
  also have "filter (\<lambda>x. sameKey (store t' x) K) (events t @ [n1]) = [n1]"
    using assms(3,4) by (simp add: filter_empty_conv)
  finally show ?thesis unfolding matching_def by (rule mset_single_list)
qed

lemma sameKey_cong: "sameKey b K \<Longrightarrow> sameKey a b = sameKey a K"
  by (auto simp: sameKey_def)

lemma sameKey_id_update: "sameKey (b\<lparr>ev_id := i\<rparr>) K = sameKey b K"
  by (simp add: sameKey_def)

lemma sameKey_assign:
  "sameKey a K \<Longrightarrow> sameKey b K \<Longrightarrow> tick_of K = Some (Tick k) \<Longrightarrow> sameKey (assign a b) K"
  by (auto simp: sameKey_def assign_def over_def reading_Some_iff split: property.splits)

lemma inserted_key:
  assumes "tick_of (store t e) = Some (Tick k)"
  shows "sameKey (inserted t e) (store t e)"
proof -
  from assms have "\<not> tickIsUndefined (store t e)"
    by (simp add: tickIsUndefined_def)
  then have "tick_of (inserted t e) = tick_of (store t e)" by (rule inserted_tick_defined)
  with assms show ?thesis
    by (simp add: sameKey_def inserted_subtype inserted_def Let_def)
qed

lemma mset_events_sortByTick: "mset (events (sortByTick t)) = mset (events t)"
  by (simp add: sortByTick_def)

text \<open>The two calls, when both return.\<close>

lemma createOrUpdate_twice:
  assumes b: "idsBelowNext t"
    and nomatch: "matching t (store t n1) = []"
    and tick: "tick_of (store t n1) = Some (Tick k)"
    and key2: "sameKey (store t n2) (store t n1)"
    and c1: "createOrUpdate t n1 = Returned t1 r1"
    and c2: "createOrUpdate t1 n2 = Returned t2 r2"
  shows "r1 = n1 \<and> r2 = n1 \<and> matching t2 (store t n1) = [n1]
     \<and> id_of (store t1 n1) = Some (lastEventId t) \<and> id_of (store t2 n1) = Some (lastEventId t)
     \<and> store t2 n1 = assign (store t1 n1) ((store t1 n2)\<lparr>ev_id := Value (lastEventId t)\<rparr>)
     \<and> (n2 \<noteq> n1 \<longrightarrow> store t1 n2 = store t n2)"
proof -
  let ?K = "store t n1"
  let ?u = "t\<lparr>store := (store t)(n1 := inserted t n1), lastEventId := js_succ (lastEventId t),
        events := events t @ [n1]\<rparr>"
  from tick have self: "sameKey ?K ?K" by (simp add: sameKey_def)
  from nomatch have nm: "filter (\<lambda>x. sameKey (store t x) ?K) (events t) = []"
    by (simp add: matching_def)
  with self have fresh: "n1 \<notin> set (events t)" by (auto simp: filter_empty_conv)
  from nm have nokey: "\<forall>x\<in>set (events t). \<not> sameKey (store t x) ?K"
    by (simp add: filter_empty_conv)
  \<comment> \<open>the first call inserts\<close>
  from c1 nm have "addEvent t n1 = Returned t1 r1" by (simp add: createOrUpdate_def)
  from addEvent_Returned[OF this] have t1: "t1 = sortByTick ?u" and r1: "r1 = n1"
    by (simp_all add: addEvent_inner_eq)
  have st1: "store t1 = (store t)(n1 := inserted t n1)" by (simp add: t1 sortByTick_def)
  have ev1: "mset (events t1) = mset (events t @ [n1])"
    by (simp add: t1 mset_events_sortByTick)
  then have set1: "set (events t1) = insert n1 (set (events t))"
    by (metis mset_eq_setD set_append list.simps(15) empty_set Un_insert_right sup_bot.right_neutral)
  have id1: "id_of (store t1 n1) = Some (lastEventId t)" by (simp add: st1 inserted_id)
  have kin: "sameKey (store t1 n1) ?K" using inserted_key[OF tick] by (simp add: st1)
  have s2: "n2 \<noteq> n1 \<longrightarrow> store t1 n2 = store t n2" by (simp add: st1)
  have key2': "sameKey (store t1 n2) ?K"
    using key2 kin s2 by (cases "n2 = n1") simp_all
  have nokey1: "\<forall>x\<in>set (events t). \<not> sameKey (store t1 x) ?K"
    using nokey fresh by (auto simp: st1)
  have m1: "matching t1 ?K = [n1]"
    using ev1 fresh nokey1 kin by (rule matching_single)
  \<comment> \<open>the second call updates the inserted object\<close>
  have "filter (\<lambda>x. sameKey (store t1 x) (store t1 n2)) (events t1) = [n1]"
    using m1 sameKey_cong[OF key2'] by (simp add: matching_def)
  with c2 have r2: "r2 = n1" and "updateEach t1 n2 [n1] = Returned t2 ()"
    by (auto simp: createOrUpdate_def andThen_Returned_iff)
  then obtain res where up: "updateEvent t1 (id_of (store t1 n1))
       ((store t1 n2)\<lparr>ev_id := holding (id_of (store t1 n1))\<rparr>) = Returned t2 res"
    by (auto simp: andThen_Returned_iff)
  let ?obj = "(store t1 n2)\<lparr>ev_id := Value (lastEventId t)\<rparr>"
  let ?x2 = "assign (store t1 n1) ?obj"
  from up id1 have up': "updateEvent t1 (Some (lastEventId t)) ?obj = Returned t2 res" by simp
  have g: "getEventById t1 (Some (lastEventId t)) = Some n1"
  proof (rule getEventById_unique)
    show "n1 \<in> set (events t1)" by (simp add: set1)
    show "id_of (store t1 n1) = Some (lastEventId t)" by (rule id1)
    fix r assume r: "r \<in> set (events t1)" "id_of (store t1 r) = Some (lastEventId t)"
    show "r = n1"
    proof (rule ccontr)
      assume "r \<noteq> n1"
      with r(1) set1 have "r \<in> set (events t)" by auto
      with b obtain i where "id_of (store t r) = Some i" "i < lastEventId t"
        by (auto simp: idsBelowNext_def split: option.splits)
      with r(2) \<open>r \<noteq> n1\<close> show False by (simp add: st1)
    qed
  qed
  have t2: "store t2 = (store t1)(n1 := ?x2) \<and> mset (events t2) = mset (events t1)"
  proof -
    from updateEvent_Returned[OF up'] show ?thesis
    proof
      assume "res = None \<and> t2 = t1 \<and> updateEvent_inner t1 (Some (lastEventId t)) ?obj = (t1, None)"
      then have "t2 = t1" and "updateEvent_inner t1 (Some (lastEventId t)) ?obj = (t1, None)"
        by simp_all
      with g have "?x2 = store t1 n1"
        by (auto simp: updateEvent_inner_def Let_def split: if_splits)
      with \<open>t2 = t1\<close> show ?thesis by (simp add: fun_eq_iff)
    next
      assume "\<exists>a u. res = Some a \<and> updateEvent_inner t1 (Some (lastEventId t)) ?obj = (u, Some a)
              \<and> updateEndOfTrack u = Returned u () \<and> t2 = sortByTick u"
      then obtain a u where inner: "updateEvent_inner t1 (Some (lastEventId t)) ?obj = (u, Some a)"
        and "t2 = sortByTick u" by blast
      from updateEvent_inner_Some[OF inner] g
      have "u = t1\<lparr>store := (store t1)(n1 := ?x2)\<rparr>" by simp
      with \<open>t2 = sortByTick u\<close> show ?thesis by (simp add: sortByTick_def)
    qed
  qed
  then have st2: "store t2 = (store t1)(n1 := ?x2)" and ev2: "mset (events t2) = mset (events t @ [n1])"
    using ev1 by simp_all
  have "sameKey ?obj ?K" using key2' by (simp only: sameKey_id_update)
  with kin tick have k2: "sameKey (store t2 n1) ?K" by (simp add: st2 sameKey_assign)
  have nokey2: "\<forall>x\<in>set (events t). \<not> sameKey (store t2 x) ?K"
    using nokey1 fresh by (auto simp: st2)
  have m2: "matching t2 ?K = [n1]"
    using ev2 fresh nokey2 k2 by (rule matching_single)
  have "id_of ?x2 = Some (lastEventId t)" by (simp add: assign_def over_def)
  then have id2: "id_of (store t2 n1) = Some (lastEventId t)" by (simp add: st2)
  from r1 r2 m2 id1 id2 st2 s2 show ?thesis by simp
qed

text \<open>Without \<open>endOfTrack\<close> events both calls return.\<close>

lemma createOrUpdate_twice_returns:
  assumes b: "idsBelowNext t"
    and nomatch: "matching t (store t n1) = []"
    and tick: "tick_of (store t n1) = Some (Tick k)"
    and key2: "sameKey (store t n2) (store t n1)"
    and noEot: "findEndOfTrackEvents t = []"
    and notEot: "subtype_of (store t n1) \<noteq> Some ''endOfTrack''"
  shows "returns (createOrUpdate t n1)
     \<and> returns (createOrUpdate (stateOf (createOrUpdate t n1)) n2)"
proof -
  let ?K = "store t n1"
  let ?u = "t\<lparr>store := (store t)(n1 := inserted t n1), lastEventId := js_succ (lastEventId t),
        events := events t @ [n1]\<rparr>"
  let ?t1 = "sortByTick ?u"
  from tick have self: "sameKey ?K ?K" by (simp add: sameKey_def)
  from nomatch have nm: "filter (\<lambda>x. sameKey (store t x) ?K) (events t) = []"
    by (simp add: matching_def)
  with self have fresh: "n1 \<notin> set (events t)" by (auto simp: filter_empty_conv)
  from noEot have noEot': "\<forall>x\<in>set (events t). subtype_of (store t x) \<noteq> Some ''endOfTrack''"
    by (simp add: findEndOfTrackEvents_def filter_empty_conv)
  have "findEndOfTrackEvents ?u = []"
    using noEot' notEot fresh
    by (auto simp: findEndOfTrackEvents_def filter_empty_conv inserted_subtype)
  then have "updateEndOfTrack ?u = Returned ?u ()" by (rule updateEndOfTrack_nil)
  then have a1: "addEvent t n1 = Returned ?t1 n1"
    by (simp add: addEvent_def addEvent_inner_eq didAddEvent_def)
  with nm have c1: "createOrUpdate t n1 = Returned ?t1 n1" by (simp add: createOrUpdate_def)
  have st1: "store ?t1 = (store t)(n1 := inserted t n1)" by (simp add: sortByTick_def)
  have set1: "set (events ?t1) = insert n1 (set (events t))" by (simp add: sortByTick_def)
  have kin: "sameKey (store ?t1 n1) ?K" using inserted_key[OF tick] by (simp add: st1)
  have key2': "sameKey (store ?t1 n2) ?K"
    using key2 kin by (cases "n2 = n1") (simp_all add: st1)
  let ?evs = "filter (\<lambda>x. sameKey (store ?t1 x) (store ?t1 n2)) (events ?t1)"
  have sub: "set ?evs \<subseteq> {n1}"
  proof
    fix x assume "x \<in> set ?evs"
    then have x: "x \<in> set (events ?t1)" "sameKey (store ?t1 x) ?K"
      using sameKey_cong[OF key2'] by auto
    show "x \<in> {n1}"
    proof (rule ccontr)
      assume "x \<notin> {n1}"
      with x set1 have "x \<in> set (events t)" "sameKey (store t x) ?K" by (auto simp: st1)
      with nm show False by (auto simp: filter_empty_conv)
    qed
  qed
  have each: "returns (updateEach u n2 es)"
    if "set es \<subseteq> {n1}" "findEndOfTrackEvents u = []" "sameKey (store u n2) ?K"
      "\<forall>x\<in>set (events u). id_of (store u x) = id_of (store u n1) \<longrightarrow> sameKey (store u x) ?K"
    for u es
    using that
  proof (induction es arbitrary: u)
    case Nil
    show ?case by simp
  next
    case (Cons x xs)
    from Cons.prems(1) have x: "x = n1" and xs: "set xs \<subseteq> {n1}" by auto
    let ?obj = "(store u n2)\<lparr>ev_id := holding (id_of (store u n1))\<rparr>"
    have objk: "sameKey ?obj ?K" using Cons.prems(3) by (simp only: sameKey_id_update)
    show ?case
    proof (cases "updateEvent_inner u (id_of (store u n1)) ?obj")
      case (Pair u' res)
      show ?thesis
      proof (cases res)
        case None
        with Pair updateEvent_inner_None[OF Pair[unfolded None]] Cons.IH[OF xs Cons.prems(2,3,4)] x
        show ?thesis by (simp add: updateEvent_def)
      next
        case (Some a)
        from updateEvent_inner_Some[OF Pair[unfolded Some]]
        have g: "getEventById u (id_of (store u n1)) = Some a"
          and u': "u' = u\<lparr>store := (store u)(a := assign (store u a) ?obj)\<rparr>"
          by simp_all
        from getEventById_Some[OF g] have a: "a \<in> set (events u)"
          "id_of (store u a) = id_of (store u n1)" by simp_all
        with Cons.prems(4) have ka: "sameKey (store u a) ?K" by blast
        from ka objk tick have kx: "sameKey (assign (store u a) ?obj) ?K" by (rule sameKey_assign)
        with notEot have "subtype_of (assign (store u a) ?obj) \<noteq> Some ''endOfTrack''"
          by (simp add: sameKey_def)
        with Cons.prems(2) have e': "findEndOfTrackEvents u' = []"
          by (auto simp: findEndOfTrackEvents_def filter_empty_conv u')
        then have ret: "updateEndOfTrack u' = Returned u' ()" by (rule updateEndOfTrack_nil)
        let ?w = "sortByTick u'"
        let ?x2 = "assign (store u a) ?obj"
        have w: "store ?w = (store u)(a := ?x2)" "set (events ?w) = set (events u)"
          by (simp_all add: sortByTick_def u')
        have e'': "findEndOfTrackEvents ?w = []"
          using e' by (auto simp: findEndOfTrackEvents_def filter_empty_conv sortByTick_def)
        have idx: "id_of ?x2 = id_of (store u n1)"
          by (simp add: assign_def)
        have k2: "sameKey (store ?w n2) ?K"
          using Cons.prems(3) kx unfolding w(1) by (cases "n2 = a") simp_all
        have n1id: "id_of (store ?w n1) = id_of (store u n1)"
          using idx unfolding w(1) by (cases "n1 = a") simp_all
        have ids: "\<forall>y\<in>set (events ?w). id_of (store ?w y) = id_of (store ?w n1)
                     \<longrightarrow> sameKey (store ?w y) ?K"
        proof (intro ballI impI)
          fix y assume y: "y \<in> set (events ?w)" "id_of (store ?w y) = id_of (store ?w n1)"
          show "sameKey (store ?w y) ?K"
          proof (cases "y = a")
            case True
            with kx show ?thesis unfolding w(1) by simp
          next
            case False
            with y n1id have "y \<in> set (events u)" "id_of (store u y) = id_of (store u n1)"
              unfolding w by simp_all
            with Cons.prems(4) False show ?thesis unfolding w(1) by simp
          qed
        qed
        from Cons.IH[OF xs e'' k2 ids] Pair Some ret x show ?thesis
          by (simp add: updateEvent_def)
      qed
    qed
  qed
  have ids1: "\<forall>x\<in>set (events ?t1). id_of (store ?t1 x) = id_of (store ?t1 n1)
                \<longrightarrow> sameKey (store ?t1 x) ?K"
  proof (intro ballI impI)
    fix x assume x: "x \<in> set (events ?t1)" "id_of (store ?t1 x) = id_of (store ?t1 n1)"
    show "sameKey (store ?t1 x) ?K"
    proof (cases "x = n1")
      case True
      with kin show ?thesis by simp
    next
      case False
      with x(1) set1 have "x \<in> set (events t)" by auto
      with b obtain i where "id_of (store t x) = Some i" "i < lastEventId t"
        by (auto simp: idsBelowNext_def split: option.splits)
      with x(2) False show ?thesis by (simp add: st1 inserted_id)
    qed
  qed
  have e1: "findEndOfTrackEvents ?t1 = []"
    using \<open>findEndOfTrackEvents ?u = []\<close>
    by (auto simp: findEndOfTrackEvents_def filter_empty_conv sortByTick_def)
  from each[OF sub e1 key2' ids1] have "returns (updateEach ?t1 n2 ?evs)" .
  then have "returns (createOrUpdate ?t1 n2)"
  proof (cases "?evs = []")
    case True
    have "findEndOfTrackEvents (fst (addEvent_inner ?t1 n2)) = []"
    proof -
      have "subtype_of (store ?t1 n2) \<noteq> Some ''endOfTrack''"
        using key2' notEot by (simp add: sameKey_def)
      with e1 show ?thesis
        by (auto simp: findEndOfTrackEvents_def filter_empty_conv addEvent_inner_eq
              inserted_subtype)
    qed
    then have "returns (didAddEvent (fst (addEvent_inner ?t1 n2)))"
      by (rule didAddEvent_returns_nil)
    with True show ?thesis by (simp add: createOrUpdate_def returns_addEvent)
  next
    case False
    assume "returns (updateEach ?t1 n2 ?evs)"
    with False show ?thesis
      by (cases "updateEach ?t1 n2 ?evs") (simp_all add: createOrUpdate_def Let_def)
  qed
  with c1 show ?thesis by simp
qed

text \<open>
  C6, as amended. Take a track whose stored ids lie under \<open>lastEventId\<close>, a candidate
  whose tick is a number and whose triple no stored event has, and a second candidate
  of the same triple. When the two calls of \<open>createOrUpdate\<close> return, the first has
  inserted its candidate, and after the second exactly one stored event has that triple:
  the object inserted by the first call, which both calls return. Its id is the id the
  first call assigned, and its fields are the merge of the second candidate onto it:
  every property the second candidate carries, the id apart, has the candidate's value,
  and the others keep the value of the first insertion. Both calls return when the track
  has no \<open>endOfTrack\<close> event and the candidates are not \<open>endOfTrack\<close> events.
\<close>
theorem C6_dedup_merge:
  assumes "idsBelowNext t"
    and "matching t (store t n1) = []"
    and "tick_of (store t n1) = Some (Tick k)"
    and "sameKey (store t n2) (store t n1)"
  shows "(\<forall>t1 r1 t2 r2.
            createOrUpdate t n1 = Returned t1 r1 \<and> createOrUpdate t1 n2 = Returned t2 r2 \<longrightarrow>
              r1 = n1 \<and> r2 = n1 \<and> matching t2 (store t n1) = [n1]
              \<and> id_of (store t1 n1) = Some (lastEventId t)
              \<and> id_of (store t2 n1) = Some (lastEventId t)
              \<and> store t2 n1 = assign (store t1 n1) ((store t1 n2)\<lparr>ev_id := Value (lastEventId t)\<rparr>)
              \<and> (n2 \<noteq> n1 \<longrightarrow> store t1 n2 = store t n2))
     \<and> (findEndOfTrackEvents t = [] \<and> subtype_of (store t n1) \<noteq> Some ''endOfTrack'' \<longrightarrow>
            returns (createOrUpdate t n1)
            \<and> returns (createOrUpdate (stateOf (createOrUpdate t n1)) n2))"
  using createOrUpdate_twice[OF assms] createOrUpdate_twice_returns[OF assms] by blast

theorem C6_witness:
  "idsBelowNext (newTrack twoNames)
   \<and> matching (newTrack twoNames) (store (newTrack twoNames) 0) = []
   \<and> tick_of (store (newTrack twoNames) 0) = Some (Tick 0)
   \<and> sameKey (store (newTrack twoNames) 1) (store (newTrack twoNames) 0)
   \<and> returns (createOrUpdate (newTrack twoNames) 0)
   \<and> returns (createOrUpdate (stateOf (createOrUpdate (newTrack twoNames) 0)) 1)
   \<and> matching (stateOf (createOrUpdate (stateOf (createOrUpdate (newTrack twoNames) 0)) 1))
        (trackName ''Piano'') = [0]
   \<and> id_of (store (stateOf (createOrUpdate (stateOf (createOrUpdate (newTrack twoNames) 0)) 1)) 0)
        = Some 0
   \<and> ev_text (store (stateOf (createOrUpdate (stateOf (createOrUpdate (newTrack twoNames) 0)) 1)) 0)
        = Value ''Grand Piano''"
proof -
  let ?t = "newTrack twoNames"
  have s0: "store ?t 0 = trackName ''Piano''" by (simp add: newTrack_def twoNames_def)
  have s1: "store ?t 1 = trackName ''Grand Piano''" by (simp add: newTrack_def twoNames_def)
  have h1: "idsBelowNext ?t" by (simp add: idsBelowNext_def newTrack_def)
  have h2: "matching ?t (store ?t 0) = []" by (simp add: matching_def newTrack_def)
  have h3: "tick_of (store ?t 0) = Some (Tick 0)" by (simp add: s0 trackName_def)
  have h4: "sameKey (store ?t 1) (store ?t 0)"
    unfolding s0 s1 by (simp add: trackName_def sameKey_def)
  have e: "findEndOfTrackEvents ?t = []" by (simp add: findEndOfTrackEvents_def newTrack_def)
  have n: "subtype_of (store ?t 0) \<noteq> Some ''endOfTrack''" by (simp add: s0 trackName_def)
  note c6 = C6_dedup_merge[OF h1 h2 h3 h4]
  from c6 e n have r1: "returns (createOrUpdate ?t 0)"
    and r2: "returns (createOrUpdate (stateOf (createOrUpdate ?t 0)) 1)"
    by blast+
  from r1 obtain t1 v1 where c1: "createOrUpdate ?t 0 = Returned t1 v1"
    by (cases "createOrUpdate ?t 0") auto
  with r2 obtain t2 v2 where c2: "createOrUpdate t1 1 = Returned t2 v2"
    by (cases "createOrUpdate t1 1") auto
  from c6 c1 c2 have m: "matching t2 (store ?t 0) = [0]"
    and i1: "id_of (store t1 0) = Some (lastEventId ?t)"
    and i2: "id_of (store t2 0) = Some (lastEventId ?t)"
    and f: "store t2 0 = assign (store t1 0) ((store t1 1)\<lparr>ev_id := Value (lastEventId ?t)\<rparr>)"
    and k: "store t1 1 = store ?t 1"
    by blast+
  from f have "ev_text (store t2 0) = Value ''Grand Piano''"
    unfolding k s1 by (simp add: assign_def over_def trackName_def)
  moreover from i2 have "id_of (store t2 0) = Some 0" by (simp add: newTrack_def)
  moreover from m have "matching t2 (trackName ''Piano'') = [0]" by (simp only: s0)
  ultimately show ?thesis using h1 h2 h3 h4 r1 r2 c1 c2 by simp
qed

text \<open>
  The claim C6 as stated fails, in runs that return. The fields are merged, not replaced:
  after a candidate note with the duration 4 and the velocity 100 and a second candidate
  of the same triple with the velocity 80 and no duration, the stored event has the
  velocity 80 and still the duration 4. A candidate without a tick is stored with a tick
  and never matches the next candidate without one: two candidates with the \<open>deltaTime\<close> 3
  and no tick are both inserted, and no stored event has their triple. And when a stored
  event carries the id that the first call assigns (after \<open>updateEvent(0, { id: 1 })\<close>),
  the second call merges its candidate onto that event, and two stored events have the
  triple, the one inserted by the first call still with the fields of the first candidate.
\<close>
theorem C6_counterexample:
  "map_option events (run (newTrack mergeStore) [CreateOrUpdate 0, CreateOrUpdate 1]) = Some [0]
   \<and> field_after ev_velocity 0 (run (newTrack mergeStore) [CreateOrUpdate 0, CreateOrUpdate 1])
       = Some (Some 80)
   \<and> field_after ev_duration 0 (run (newTrack mergeStore) [CreateOrUpdate 0, CreateOrUpdate 1])
       = Some (Some 4)
   \<and> duration_of (mergeStore 1) = None
   \<and> map_option events (run (newTrack twoDeltas) [CreateOrUpdate 0, CreateOrUpdate 1])
       = Some [0, 1]
   \<and> map_option ticks (run (newTrack twoDeltas) [CreateOrUpdate 0, CreateOrUpdate 1])
       = Some [Some (Tick 3), Some (Tick 3)]
   \<and> matching_after (twoDeltas 0) (run (newTrack twoDeltas) [CreateOrUpdate 0, CreateOrUpdate 1])
       = Some []
   \<and> matching_after (trackName ''Piano'')
        (run (newTrack noteAndNames)
           [AddEvent 0, UpdateEvent 0 (noFields\<lparr>ev_id := Value 1\<rparr>),
            CreateOrUpdate 1, CreateOrUpdate 2])
       = Some [0, 1]
   \<and> field_after ev_text 0
        (run (newTrack noteAndNames)
           [AddEvent 0, UpdateEvent 0 (noFields\<lparr>ev_id := Value 1\<rparr>),
            CreateOrUpdate 1, CreateOrUpdate 2])
       = Some (Some ''Grand Piano'')
   \<and> field_after ev_text 1
        (run (newTrack noteAndNames)
           [AddEvent 0, UpdateEvent 0 (noFields\<lparr>ev_id := Value 1\<rparr>),
            CreateOrUpdate 1, CreateOrUpdate 2])
       = Some (Some ''Piano'')"
  by (simp add: newTrack_def mergeStore_def twoDeltas_def noteAndNames_def emptyStore_def
        noteOn_def trackName_def field_after_def matching_after_def matching_def ticks_def
        outcome_defs object_defs find_defs addEvent_inner_eq inserted_def Let_def
        updateEvent_inner_def sortByTick_def js_succ_def)

end
